theory Spec2Isabelle
  imports Main "HOL-Library.Char_ord" "HOL-Library.List_Lexorder" "HOL-Library.AList"
    "HOL-Library.Multiset"
begin

section \<open>Strings\<close>

text \<open>
  A Go string is a sequence of bytes, here a \<^typ>\<open>string\<close> (a list of 8-bit characters).
  \<^verbatim>\<open>strings.ToLower\<close> and \<^verbatim>\<open>strings.EqualFold\<close> are modelled for ASCII text: \<open>ToLower\<close>
  maps the letters A-Z to a-z and \<open>EqualFold\<close> compares the lower-cased strings. A byte
  above 127 is left as it is, where the library decodes UTF-8, lower-cases or folds the
  letters of other scripts and replaces an invalid byte by U+FFFD; no statement below
  relies on \<open>ToLower\<close> keeping the length of a string.
\<close>

definition lower_char :: "char \<Rightarrow> char" where
  "lower_char c =
     (if CHR ''A'' \<le> c \<and> c \<le> CHR ''Z'' then char_of (of_char c + (32::nat)) else c)"

definition ToLower :: "string \<Rightarrow> string" where
  "ToLower s = map lower_char s"

definition EqualFold :: "string \<Rightarrow> string \<Rightarrow> bool" where
  "EqualFold s t = (ToLower s = ToLower t)"

definition HasPrefix :: "string \<Rightarrow> string \<Rightarrow> bool" where
  "HasPrefix s p = (length p \<le> length s \<and> take (length p) s = p)"

definition HasSuffix :: "string \<Rightarrow> string \<Rightarrow> bool" where
  "HasSuffix s p = (length p \<le> length s \<and> drop (length s - length p) s = p)"

text \<open>
  \<^verbatim>\<open>strings.TrimSpace\<close> removes from both ends the characters for which
  \<^verbatim>\<open>unicode.IsSpace\<close> holds: U+0009 to U+000D, U+0020, U+0085, U+00A0, U+1680, U+2000 to
  U+200A, U+2028, U+2029, U+202F, U+205F and U+3000. \<open>spaceEncodings\<close> lists their UTF-8
  encodings. A string begins with one of these characters exactly when one of the
  encodings is a prefix of it, and it ends with one exactly when one of them is a suffix,
  since the first byte of an encoding is never a continuation byte.
\<close>

definition spaceEncodings :: "string list" where
  "spaceEncodings =
     [[CHR 0x09], [CHR 0x0A], [CHR 0x0B], [CHR 0x0C], [CHR 0x0D], [CHR 0x20],
      [CHR 0xC2, CHR 0x85], [CHR 0xC2, CHR 0xA0],
      [CHR 0xE1, CHR 0x9A, CHR 0x80],
      [CHR 0xE2, CHR 0x80, CHR 0x80], [CHR 0xE2, CHR 0x80, CHR 0x81],
      [CHR 0xE2, CHR 0x80, CHR 0x82], [CHR 0xE2, CHR 0x80, CHR 0x83],
      [CHR 0xE2, CHR 0x80, CHR 0x84], [CHR 0xE2, CHR 0x80, CHR 0x85],
      [CHR 0xE2, CHR 0x80, CHR 0x86], [CHR 0xE2, CHR 0x80, CHR 0x87],
      [CHR 0xE2, CHR 0x80, CHR 0x88], [CHR 0xE2, CHR 0x80, CHR 0x89],
      [CHR 0xE2, CHR 0x80, CHR 0x8A],
      [CHR 0xE2, CHR 0x80, CHR 0xA8], [CHR 0xE2, CHR 0x80, CHR 0xA9],
      [CHR 0xE2, CHR 0x80, CHR 0xAF],
      [CHR 0xE2, CHR 0x81, CHR 0x9F],
      [CHR 0xE3, CHR 0x80, CHR 0x80]]"

text \<open>Removing, as long as there is one, an encoding that the string begins with.\<close>

function trimPrefixes :: "string list \<Rightarrow> string \<Rightarrow> string" where
  "trimPrefixes encs s =
     (case find (\<lambda>e. e \<noteq> [] \<and> HasPrefix s e) encs of
        None \<Rightarrow> s
      | Some e \<Rightarrow> trimPrefixes encs (drop (length e) s))"
  by pat_completeness auto
termination
proof (relation "measure (\<lambda>(encs, s). length s)", goal_cases)
  case 1
  show ?case by simp
next
  case (2 encs s e)
  then have "e \<noteq> [] \<and> HasPrefix s e" by (auto simp: find_Some_iff)
  then show ?case by (cases s) (auto simp: HasPrefix_def)
qed

declare trimPrefixes.simps [simp del]

definition TrimSpace :: "string \<Rightarrow> string" where
  "TrimSpace s =
     rev (trimPrefixes (map rev spaceEncodings) (rev (trimPrefixes spaceEncodings s)))"

text \<open>\<^verbatim>\<open>strings.Contains(s, "*")\<close> for the one-character needle the program uses.\<close>

definition Contains :: "string \<Rightarrow> char \<Rightarrow> bool" where
  "Contains s c = (c \<in> set s)"

text \<open>\<^verbatim>\<open>strings.Index\<close>: the offset of the first occurrence, \<open>None\<close> for Go's \<open>-1\<close>.\<close>

fun Index :: "string \<Rightarrow> string \<Rightarrow> nat option" where
  "Index [] sub = (if sub = [] then Some 0 else None)"
| "Index (c # s) sub =
     (if HasPrefix (c # s) sub then Some 0 else map_option Suc (Index s sub))"

text \<open>\<^verbatim>\<open>strings.Split\<close> on a one-character separator; the result is never empty.\<close>

fun Split :: "string \<Rightarrow> char \<Rightarrow> string list" where
  "Split [] sep = [[]]"
| "Split (c # s) sep =
     (if c = sep then [] # Split s sep
      else (case Split s sep of [] \<Rightarrow> [[c]] | p # ps \<Rightarrow> (c # p) # ps))"

section \<open>The filter tree (filter.go)\<close>

datatype FilterType =
    FilterAnd | FilterOr | FilterNot | FilterEqual | FilterApprox
  | FilterGreaterOrEqual | FilterLessOrEqual | FilterPresent | FilterSubstring

text \<open>
  The struct \<^verbatim>\<open>Filter\<close>; a field the parser leaves out holds Go's zero value, the empty
  string or the empty list.
\<close>

datatype Filter = Filter
  (Type: FilterType) (Attr: string) (Value: string) (Children: "Filter list")
  (Initial: string) (Any: "string list") (Final: string)

text \<open>The errors of the parser, one constructor for each \<^verbatim>\<open>fmt.Errorf\<close> of filter.go.\<close>

datatype error =
    EmptyFilter
  | NotEnclosed
  | EmptyComponent
  | ParseNot error
  | ExpectedParen char
  | Unbalanced
  | EmptyList
  | InvalidItem string
  | InvalidSubstring

subsection \<open>Leaves\<close>

definition parseSubstringFilter :: "string \<Rightarrow> string \<Rightarrow> error + Filter" where
  "parseSubstringFilter attr val =
     (let parts = Split val (CHR ''*'') in
      if length parts = 0 then Inl InvalidSubstring
      else Inr (Filter FilterSubstring (ToLower attr) []  []
                  (if hd parts \<noteq> [] then hd parts else [])
                  (filter (\<lambda>p. p \<noteq> []) (butlast (tl parts)))
                  (if length parts > 1 \<and> last parts \<noteq> [] then last parts else [])))"

text \<open>
  The body of the loop of \<^verbatim>\<open>parseItem\<close> once it stands on a \<open>=\<close> at offset \<open>i\<close>.
\<close>

definition parseItemAt :: "string \<Rightarrow> nat \<Rightarrow> error + Filter" where
  "parseItemAt s i =
     (let attr = take i s; val = drop (i + 1) s in
      if i > 0 \<and> s ! (i - 1) = CHR ''~'' then
        Inr (Filter FilterApprox (ToLower (take (i - 1) s)) val [] [] [] [])
      else if i > 0 \<and> s ! (i - 1) = CHR ''>'' then
        Inr (Filter FilterGreaterOrEqual (ToLower (take (i - 1) s)) val [] [] [] [])
      else if i > 0 \<and> s ! (i - 1) = CHR ''<'' then
        Inr (Filter FilterLessOrEqual (ToLower (take (i - 1) s)) val [] [] [] [])
      else if val = ''*'' then
        Inr (Filter FilterPresent (ToLower attr) [] [] [] [] [])
      else if Contains val (CHR ''*'') then parseSubstringFilter attr val
      else Inr (Filter FilterEqual (ToLower attr) val [] [] [] []))"

function parseItemFrom :: "string \<Rightarrow> nat \<Rightarrow> error + Filter" where
  "parseItemFrom s i =
     (if i < length s then
        (if s ! i = CHR ''='' then parseItemAt s i else parseItemFrom s (i + 1))
      else Inl (InvalidItem s))"
  by pat_completeness auto
termination
  by (relation "measure (\<lambda>(s, i). length s - i)") auto

declare parseItemFrom.simps [simp del]

definition parseItem :: "string \<Rightarrow> error + Filter" where
  "parseItem s = parseItemFrom s 0"

subsection \<open>Combinators\<close>

text \<open>
  The inner loop of \<^verbatim>\<open>parseFilterList\<close>: it walks the string counting parentheses and
  stops at the first closing parenthesis that brings the depth back to zero. The result
  is the pair of \<^verbatim>\<open>depth\<close> and \<^verbatim>\<open>end\<close> as they stand after the loop.
\<close>

fun scanSpan :: "string \<Rightarrow> nat \<Rightarrow> int \<Rightarrow> int \<times> nat" where
  "scanSpan [] i depth = (depth, 0)"
| "scanSpan (c # cs) i depth =
     (if c = CHR ''('' then scanSpan cs (i + 1) (depth + 1)
      else if c = CHR '')'' then
        (if depth - 1 = 0 then (0, i) else scanSpan cs (i + 1) (depth - 1))
      else scanSpan cs (i + 1) depth)"

lemma scanSpan_end_less: "snd (scanSpan s i d) < i + length s \<or> s = []"
  by (induction s i d rule: scanSpan.induct) auto

lemma scanSpan_end_bound: "s \<noteq> [] \<Longrightarrow> snd (scanSpan s 0 0) < length s"
  using scanSpan_end_less [of s 0 0] by simp

lemma length_trimPrefixes_le: "length (trimPrefixes encs s) \<le> length s"
proof (induction encs s rule: trimPrefixes.induct)
  case (1 encs s)
  show ?case
  proof (cases "find (\<lambda>e. e \<noteq> [] \<and> HasPrefix s e) encs")
    case None
    then show ?thesis by (subst trimPrefixes.simps) simp
  next
    case (Some e)
    with "1.IH" [OF Some] show ?thesis by (subst trimPrefixes.simps) simp
  qed
qed

lemma length_TrimSpace_le: "length (TrimSpace s) \<le> length s"
proof -
  have "length (TrimSpace s) \<le> length (trimPrefixes spaceEncodings s)"
    unfolding TrimSpace_def
    using length_trimPrefixes_le [of "map rev spaceEncodings" "rev (trimPrefixes spaceEncodings s)"]
    by simp
  also have "\<dots> \<le> length s" by (rule length_trimPrefixes_le)
  finally show ?thesis .
qed

function ParseFilter :: "string \<Rightarrow> error + Filter"
  and parseFilterComp :: "string \<Rightarrow> error + Filter"
  and parseFilterList :: "string \<Rightarrow> FilterType \<Rightarrow> Filter list \<Rightarrow> error + Filter"
where
  "ParseFilter filterStr =
     (if length (TrimSpace filterStr) = 0 then Inl EmptyFilter
      else if hd (TrimSpace filterStr) \<noteq> CHR ''('' \<or> last (TrimSpace filterStr) \<noteq> CHR '')''
        then Inl NotEnclosed
      else parseFilterComp (butlast (tl (TrimSpace filterStr))))"
| "parseFilterComp s =
     (if length s = 0 then Inl EmptyComponent
      else if hd s = CHR ''&'' then parseFilterList (tl s) FilterAnd []
      else if hd s = CHR ''|'' then parseFilterList (tl s) FilterOr []
      else if hd s = CHR ''!'' then
        (case ParseFilter (tl s) of
           Inl err \<Rightarrow> Inl (ParseNot err)
         | Inr child \<Rightarrow> Inr (Filter FilterNot [] [] [child] [] [] []))
      else parseItem s)"
| "parseFilterList s filterType children =
     (if length s > 0 then
        (if hd s \<noteq> CHR ''('' then Inl (ExpectedParen (hd s))
         else if fst (scanSpan s 0 0) \<noteq> 0 then Inl Unbalanced
         else
           (case ParseFilter (take (snd (scanSpan s 0 0) + 1) s) of
              Inl err \<Rightarrow> Inl err
            | Inr child \<Rightarrow>
                parseFilterList (drop (snd (scanSpan s 0 0) + 1) s) filterType
                  (children @ [child])))
      else if length children = 0 then Inl EmptyList
      else Inr (Filter filterType [] [] children [] [] []))"
  by pat_completeness auto
termination
proof (relation "measure (\<lambda>x. case x of
          Inl s \<Rightarrow> 2 * length s
        | Inr (Inl s) \<Rightarrow> 2 * length s + 1
        | Inr (Inr (s, t, c)) \<Rightarrow> 2 * length s + 1)", goal_cases)
  case 1
  show ?case by simp
next
  case (2 filterStr)
  have "length (butlast (tl (TrimSpace filterStr))) < length (TrimSpace filterStr)"
    using 2 by (cases "TrimSpace filterStr") auto
  with length_TrimSpace_le [of filterStr] show ?case by simp
next
  case (3 s)
  then show ?case by (cases s) auto
next
  case (4 s)
  then show ?case by (cases s) auto
next
  case (5 s)
  then show ?case by (cases s) auto
next
  case (6 s filterType children)
  then show ?case by (simp add: min_def)
next
  case (7 s filterType children child)
  then show ?case by (cases s) auto
qed

declare ParseFilter.simps [simp del] parseFilterComp.simps [simp del]
  parseFilterList.simps [simp del]


section \<open>Evaluating a filter on attributes (filter.go)\<close>

text \<open>The loop of \<^verbatim>\<open>matchSubstring\<close> over the \<^verbatim>\<open>any\<close> segments.\<close>

fun matchAny :: "string \<Rightarrow> string list \<Rightarrow> bool" where
  "matchAny val [] = True"
| "matchAny val (part # rest) =
     (case Index val (ToLower part) of
        None \<Rightarrow> False
      | Some idx \<Rightarrow> matchAny (drop (idx + length (ToLower part)) val) rest)"

definition matchSubstring :: "string \<Rightarrow> string \<Rightarrow> string list \<Rightarrow> string \<Rightarrow> bool" where
  "matchSubstring val0 initial0 any final0 =
     (let val = ToLower val0; initial = ToLower initial0; final = ToLower final0 in
      if initial \<noteq> [] \<and> \<not> HasPrefix val initial then False
      else
        let val1 = (if initial \<noteq> [] then drop (length initial) val else val) in
        if final \<noteq> [] \<and> \<not> HasSuffix val1 final then False
        else
          let val2 = (if final \<noteq> [] then take (length val1 - length final) val1 else val1)
          in matchAny val2 any)"

fun matchFilterInternal :: "Filter \<Rightarrow> (string \<rightharpoonup> string) \<Rightarrow> bool" where
  "matchFilterInternal (Filter t attr val children initial any final) attrs =
     (case t of
        FilterAnd \<Rightarrow> list_all (\<lambda>child. matchFilterInternal child attrs) children
      | FilterOr \<Rightarrow> list_ex (\<lambda>child. matchFilterInternal child attrs) children
      | FilterNot \<Rightarrow>
          (case children of [] \<Rightarrow> True | child # _ \<Rightarrow> \<not> matchFilterInternal child attrs)
      | FilterEqual \<Rightarrow>
          (case attrs attr of None \<Rightarrow> False | Some v \<Rightarrow> EqualFold v val)
      | FilterApprox \<Rightarrow>
          (case attrs attr of None \<Rightarrow> False | Some v \<Rightarrow> EqualFold v val)
      | FilterGreaterOrEqual \<Rightarrow>
          (case attrs attr of None \<Rightarrow> False | Some v \<Rightarrow> ToLower v \<ge> ToLower val)
      | FilterLessOrEqual \<Rightarrow>
          (case attrs attr of None \<Rightarrow> False | Some v \<Rightarrow> ToLower v \<le> ToLower val)
      | FilterPresent \<Rightarrow> attrs attr \<noteq> None
      | FilterSubstring \<Rightarrow>
          (case attrs attr of None \<Rightarrow> False | Some v \<Rightarrow> matchSubstring v initial any final))"

text \<open>
  A Go \<^verbatim>\<open>map[string]string\<close> that the program ranges over is an association list with
  distinct keys; \<^verbatim>\<open>range\<close> visits the entries in the order of the list, so the order of
  the list stands for the iteration order the runtime happens to choose.
\<close>

type_synonym gomap = "(string \<times> string) list"

text \<open>The loop of \<^verbatim>\<open>MatchFilter\<close> that fills \<^verbatim>\<open>normalizedAttrs\<close>.\<close>

fun normalizeAttrs :: "gomap \<Rightarrow> (string \<rightharpoonup> string) \<Rightarrow> (string \<rightharpoonup> string)" where
  "normalizeAttrs [] normalizedAttrs = normalizedAttrs"
| "normalizeAttrs ((k, v) # rest) normalizedAttrs =
     normalizeAttrs rest (normalizedAttrs(ToLower k \<mapsto> v))"

definition MatchFilter :: "Filter \<Rightarrow> gomap \<Rightarrow> bool" where
  "MatchFilter flt attrs = matchFilterInternal flt (normalizeAttrs attrs Map.empty)"

section \<open>The pattern matcher behind wildcardMatch\<close>

text \<open>
  \<^verbatim>\<open>wildcardMatch\<close> builds a regular expression and hands it to \<^verbatim>\<open>regexp.MatchString\<close> of
  the Go library. The expressions it can build consist of the anchors \<open>^\<close> and \<open>$\<close>,
  \<open>.*\<close>, a backslash followed by a character, and characters copied as they are, among
  which \<open>|\<close> is the only one the library reads as an operator. \<open>reLex\<close> reads such an
  expression; \<open>regexp_MatchString\<close> is the library's meaning of it: the alternatives
  separated by \<open>|\<close> are tried at every offset of the text, \<open>^\<close> holds at offset 0 only,
  \<open>$\<close> at the end of the text only, and \<open>.\<close> is any character except the line feed.
\<close>

datatype reTok = RBegin | REnd | RAnyStar | RAnyChar | RLit char | RAlt

fun reLex :: "string \<Rightarrow> reTok list" where
  "reLex [] = []"
| "reLex (c # r) =
     (if c = CHR 0x5C then (case r of [] \<Rightarrow> [] | d # r' \<Rightarrow> RLit d # reLex r')
      else if c = CHR ''.'' then
        (case r of
           [] \<Rightarrow> [RAnyChar]
         | d # r' \<Rightarrow> if d = CHR ''*'' then RAnyStar # reLex r' else RAnyChar # reLex r)
      else if c = CHR ''|'' then RAlt # reLex r
      else if c = CHR ''^'' then RBegin # reLex r
      else if c = CHR ''$'' then REnd # reLex r
      else RLit c # reLex r)"

fun splitAlt :: "reTok list \<Rightarrow> reTok list list" where
  "splitAlt [] = [[]]"
| "splitAlt (t # ts) =
     (if t = RAlt then [] # splitAlt ts
      else (case splitAlt ts of [] \<Rightarrow> [[t]] | a # as \<Rightarrow> (t # a) # as))"

fun matchHere :: "reTok list \<Rightarrow> bool \<Rightarrow> string \<Rightarrow> bool" where
  "matchHere [] bof s = True"
| "matchHere (RBegin # ts) bof s = (bof \<and> matchHere ts bof s)"
| "matchHere (REnd # ts) bof s = (s = [] \<and> matchHere ts bof s)"
| "matchHere (RLit c # ts) bof s =
     (case s of [] \<Rightarrow> False | x # xs \<Rightarrow> x = c \<and> matchHere ts False xs)"
| "matchHere (RAnyChar # ts) bof s =
     (case s of [] \<Rightarrow> False | x # xs \<Rightarrow> x \<noteq> CHR 0x0A \<and> matchHere ts False xs)"
| "matchHere (RAnyStar # ts) bof s =
     (matchHere ts bof s \<or>
      (case s of [] \<Rightarrow> False | x # xs \<Rightarrow> x \<noteq> CHR 0x0A \<and> matchHere (RAnyStar # ts) False xs))"
| "matchHere (RAlt # ts) bof s = False"

definition regexp_MatchString :: "string \<Rightarrow> string \<Rightarrow> bool" where
  "regexp_MatchString re s =
     list_ex (\<lambda>alt. list_ex (\<lambda>i. matchHere alt (i = 0) (drop i s)) [0 ..< length s + 1])
       (splitAlt (reLex re))"

section \<open>Comparing a rule's filter with a request's filter\<close>

text \<open>
  The loop of \<^verbatim>\<open>wildcardMatch\<close> that appends to \<^verbatim>\<open>regexPattern\<close>, one character of the
  pattern at a time.
\<close>

fun regexPattern :: "string \<Rightarrow> string \<Rightarrow> string" where
  "regexPattern acc [] = acc"
| "regexPattern acc (c # cs) =
     regexPattern
       (if c = CHR ''*'' then acc @ ''.*''
        else if c = CHR ''.'' \<or> c = CHR ''+'' \<or> c = CHR ''?'' \<or> c = CHR ''('' \<or> c = CHR '')''
              \<or> c = CHR ''['' \<or> c = CHR '']'' \<or> c = CHR ''{'' \<or> c = CHR ''}'' \<or> c = CHR ''^''
              \<or> c = CHR ''$'' \<or> c = CHR 0x5C
          then acc @ [CHR 0x5C, c]
        else acc @ [c])
       cs"

definition wildcardMatch :: "string \<Rightarrow> string \<Rightarrow> bool" where
  "wildcardMatch pattern str =
     regexp_MatchString (regexPattern ''^'' (ToLower pattern) @ ''$'') (ToLower str)"

text \<open>
  The loop of \<^verbatim>\<open>filtersMatch\<close> over the \<^verbatim>\<open>any\<close> segments of two Substring nodes, which
  runs once the two lists are known to have the same length.
\<close>

fun allEqualFold :: "string list \<Rightarrow> string list \<Rightarrow> bool" where
  "allEqualFold (a # as) (b # bs) = (EqualFold a b \<and> allEqualFold as bs)"
| "allEqualFold _ _ = True"

fun filtersMatch :: "Filter \<Rightarrow> Filter \<Rightarrow> bool" where
  "filtersMatch (Filter rT rAttr rValue rChildren rInitial rAny rFinal)
                (Filter qT qAttr qValue qChildren qInitial qAny qFinal) =
     (if rT \<noteq> qT then
        (if rT = FilterOr then
           list_ex (\<lambda>child.
             filtersMatch child (Filter qT qAttr qValue qChildren qInitial qAny qFinal))
             rChildren
         else if qT = FilterAnd then
           list_ex (\<lambda>child.
             filtersMatch (Filter rT rAttr rValue rChildren rInitial rAny rFinal) child)
             qChildren
         else False)
      else if rT = FilterAnd \<or> rT = FilterOr then
        (if length rChildren > length qChildren then False
         else list_all (\<lambda>ruleChild.
                list_ex (\<lambda>reqChild. filtersMatch ruleChild reqChild) qChildren) rChildren)
      else if rT = FilterNot then
        (case rChildren of
           [] \<Rightarrow> length rChildren = length qChildren
         | rc # _ \<Rightarrow>
            (case qChildren of
               [] \<Rightarrow> length rChildren = length qChildren
             | qc # _ \<Rightarrow> filtersMatch rc qc))
      else if rT = FilterEqual \<or> rT = FilterApprox \<or> rT = FilterGreaterOrEqual
              \<or> rT = FilterLessOrEqual then
        (if \<not> EqualFold rAttr qAttr then False
         else if Contains rValue (CHR ''*'') then wildcardMatch rValue qValue
         else EqualFold rValue qValue)
      else if rT = FilterPresent then EqualFold rAttr qAttr
      else
        (if \<not> EqualFold rAttr qAttr then False
         else if rInitial \<noteq> [] \<and> \<not> EqualFold rInitial qInitial then False
         else if rFinal \<noteq> [] \<and> \<not> EqualFold rFinal qFinal then False
         else if length rAny > 0 then
           (if length rAny \<noteq> length qAny then False else allEqualFold rAny qAny)
         else True))"

definition matchRuleFilter :: "string \<Rightarrow> string \<Rightarrow> bool" where
  "matchRuleFilter ruleFilter reqFilter =
     (case ParseFilter ruleFilter of
        Inl err \<Rightarrow> False
      | Inr ruleF \<Rightarrow>
          (case ParseFilter reqFilter of
             Inl err \<Rightarrow> False
           | Inr reqF \<Rightarrow> filtersMatch ruleF reqF))"

section \<open>The rule engine\<close>

record User =
  CN :: string
  Attrs :: gomap

record Group =
  groupCN :: string
  Members :: "string list"
  groupAttrs :: gomap

record Response =
  Users :: "User list"
  Groups :: "Group list"

text \<open>
  The priority of a rule is a Go \<^verbatim>\<open>int\<close>; the program only compares priorities, so an
  unbounded integer stands for it. The fields \<^verbatim>\<open>Filter\<close> of \<^verbatim>\<open>Rule\<close> and \<^verbatim>\<open>BaseDN\<close>,
  \<^verbatim>\<open>Scope\<close>, \<^verbatim>\<open>Filter\<close> of \<^verbatim>\<open>SearchRequest\<close> carry a prefix here, since record fields
  of one theory share a name space with each other and with the constructor \<open>Filter\<close>.
\<close>

record Rule =
  ID :: string
  Name :: string
  ruleFilter :: string
  BaseDN :: string
  Scope :: string
  Priority :: int
  Response :: Response

record RuleEngine =
  rules :: "Rule list"

subsection \<open>The library's sort\<close>

text \<open>
  \<^verbatim>\<open>NewRuleEngine\<close> sorts with \<^verbatim>\<open>sort.Slice\<close>. That function belongs to the Go library
  (package \<^verbatim>\<open>sort\<close>, file zsortfunc.go, as of Go 1.23, the version of the Dockerfile),
  not to the repository; it is written out here because the order in which it leaves
  rules of equal priority decides what \<^verbatim>\<open>FindMatchingRule\<close> returns. It is a
  pattern-defeating quicksort that hands ranges of at most 12 elements to insertion
  sort.
\<close>

text \<open>
  The two operations of \<^verbatim>\<open>lessSwap\<close> on the slice being sorted: \<^verbatim>\<open>data.Less(i, j)\<close>
  applies the caller's comparison to the elements at \<open>i\<close> and \<open>j\<close>, \<^verbatim>\<open>data.Swap(i, j)\<close>
  exchanges them. Indices are Go \<^verbatim>\<open>int\<close>s; the algorithm keeps them inside the slice.
\<close>

definition data_Less :: "('a \<Rightarrow> 'a \<Rightarrow> bool) \<Rightarrow> 'a list \<Rightarrow> int \<Rightarrow> int \<Rightarrow> bool" where
  "data_Less lessFn data i j = lessFn (data ! nat i) (data ! nat j)"

definition data_Swap :: "'a list \<Rightarrow> int \<Rightarrow> int \<Rightarrow> 'a list" where
  "data_Swap data i j = data[nat i := data ! nat j, nat j := data ! nat i]"

text \<open>\<^verbatim>\<open>insertionSort_func\<close>: its inner loop, its outer loop and the function.\<close>

function insertionSort_inner :: "('a \<Rightarrow> 'a \<Rightarrow> bool) \<Rightarrow> 'a list \<Rightarrow> int \<Rightarrow> int \<Rightarrow> 'a list" where
  "insertionSort_inner lessFn data a j =
     (if j > a \<and> data_Less lessFn data j (j - 1)
      then insertionSort_inner lessFn (data_Swap data j (j - 1)) a (j - 1)
      else data)"
  by pat_completeness auto
termination
  by (relation "measure (\<lambda>(lessFn, data, a, j). nat (j - a))") auto

function insertionSort_outer :: "('a \<Rightarrow> 'a \<Rightarrow> bool) \<Rightarrow> 'a list \<Rightarrow> int \<Rightarrow> int \<Rightarrow> int \<Rightarrow> 'a list" where
  "insertionSort_outer lessFn data a b i =
     (if i < b then insertionSort_outer lessFn (insertionSort_inner lessFn data a i) a b (i + 1)
      else data)"
  by pat_completeness auto
termination
  by (relation "measure (\<lambda>(lessFn, data, a, b, i). nat (b - i))") auto

definition insertionSort_func :: "('a \<Rightarrow> 'a \<Rightarrow> bool) \<Rightarrow> 'a list \<Rightarrow> int \<Rightarrow> int \<Rightarrow> 'a list" where
  "insertionSort_func lessFn data a b = insertionSort_outer lessFn data a b (a + 1)"

text \<open>
  \<^verbatim>\<open>siftDown_func\<close> and \<^verbatim>\<open>heapSort_func\<close>. The offsets \<^verbatim>\<open>root\<close>, \<^verbatim>\<open>child\<close>, \<^verbatim>\<open>lo\<close> and \<^verbatim>\<open>hi\<close>
  into the heap are never negative and are natural numbers here; the two loops of
  \<^verbatim>\<open>heapSort_func\<close> count down to 0.
\<close>

function siftDown_func :: "('a \<Rightarrow> 'a \<Rightarrow> bool) \<Rightarrow> 'a list \<Rightarrow> nat \<Rightarrow> nat \<Rightarrow> int \<Rightarrow> 'a list" where
  "siftDown_func lessFn data root hi first =
     (if 2 * root + 1 \<ge> hi then data
      else
        let child = (if 2 * root + 1 + 1 < hi
                        \<and> data_Less lessFn data (first + int (2 * root + 1)) (first + int (2 * root + 1) + 1)
                     then 2 * root + 1 + 1 else 2 * root + 1)
        in if \<not> data_Less lessFn data (first + int root) (first + int child) then data
           else siftDown_func lessFn (data_Swap data (first + int root) (first + int child)) child hi first)"
  by pat_completeness auto
termination
  by (relation "measure (\<lambda>(lessFn, data, root, hi, first). hi - root)") (auto simp: Let_def split: if_splits)

definition heapSort_func :: "('a \<Rightarrow> 'a \<Rightarrow> bool) \<Rightarrow> 'a list \<Rightarrow> int \<Rightarrow> int \<Rightarrow> 'a list" where
  "heapSort_func lessFn data a b =
     (let first = a; lo = 0; hi = nat (b - a);
          data1 = fold (\<lambda>i d. siftDown_func lessFn d i hi first) (rev [0 ..< (hi - 1) div 2 + 1]) data
      in fold (\<lambda>i d. siftDown_func lessFn (data_Swap d first (first + int i)) lo i first)
           (rev [0 ..< hi]) data1)"

text \<open>
  \<^verbatim>\<open>partition_func\<close>. \<open>scanUp\<close> is its loop \<^verbatim>\<open>for i <= j && data.Less(i, a) { i++ }\<close>,
  \<open>scanDown\<close> its loop \<^verbatim>\<open>for i <= j && !data.Less(j, a) { j-- }\<close>, and
  \<open>partition_loop\<close> the unbounded loop around the two. The result is the slice, the new
  place of the pivot and whether the slice was already partitioned.
\<close>

function scanUp :: "('a \<Rightarrow> 'a \<Rightarrow> bool) \<Rightarrow> 'a list \<Rightarrow> int \<Rightarrow> int \<Rightarrow> int \<Rightarrow> int" where
  "scanUp lessFn data a i j =
     (if i \<le> j \<and> data_Less lessFn data i a then scanUp lessFn data a (i + 1) j else i)"
  by pat_completeness auto
termination
  by (relation "measure (\<lambda>(lessFn, data, a, i, j). nat (j + 1 - i))") auto

function scanDown :: "('a \<Rightarrow> 'a \<Rightarrow> bool) \<Rightarrow> 'a list \<Rightarrow> int \<Rightarrow> int \<Rightarrow> int \<Rightarrow> int" where
  "scanDown lessFn data a i j =
     (if i \<le> j \<and> \<not> data_Less lessFn data j a then scanDown lessFn data a i (j - 1) else j)"
  by pat_completeness auto
termination
  by (relation "measure (\<lambda>(lessFn, data, a, i, j). nat (j + 1 - i))") auto

declare scanUp.simps [simp del] scanDown.simps [simp del]

lemma scanUp_ge: "i \<le> scanUp lessFn data a i j"
  by (induction lessFn data a i j rule: scanUp.induct) (subst scanUp.simps, auto)

lemma scanDown_le: "scanDown lessFn data a i j \<le> j"
  by (induction lessFn data a i j rule: scanDown.induct) (subst scanDown.simps, auto)

lemma scanDown_ge: "i - 1 \<le> j \<Longrightarrow> i - 1 \<le> scanDown lessFn data a i j"
  by (induction lessFn data a i j rule: scanDown.induct) (subst scanDown.simps, auto)

function partition_loop :: "('a \<Rightarrow> 'a \<Rightarrow> bool) \<Rightarrow> 'a list \<Rightarrow> int \<Rightarrow> int \<Rightarrow> int \<Rightarrow> 'a list \<times> int" where
  "partition_loop lessFn data a i j =
     (let i' = scanUp lessFn data a i j;
          j' = scanDown lessFn data a i' j
      in if i' > j' then (data, j')
         else partition_loop lessFn (data_Swap data i' j') a (i' + 1) (j' - 1))"
  by pat_completeness auto
termination
proof (relation "measure (\<lambda>(lessFn, data, a, i, j). nat (j + 1 - i))", goal_cases)
  case 1
  show ?case by simp
next
  case (2 lessFn data a i j i' j')
  with scanUp_ge [of i lessFn data a j] scanDown_le [of lessFn data a i' j]
  show ?case by simp
qed

declare partition_loop.simps [simp del]

definition partition_func ::
  "('a \<Rightarrow> 'a \<Rightarrow> bool) \<Rightarrow> 'a list \<Rightarrow> int \<Rightarrow> int \<Rightarrow> int \<Rightarrow> 'a list \<times> int \<times> bool" where
  "partition_func lessFn data0 a b pivot =
     (let data = data_Swap data0 a pivot;
          i = scanUp lessFn data a (a + 1) (b - 1);
          j = scanDown lessFn data a i (b - 1)
      in if i > j then (data_Swap data j a, j, True)
         else
           let (data', j') = partition_loop lessFn (data_Swap data i j) a (i + 1) (j - 1)
           in (data_Swap data' j' a, j', False))"

text \<open>\<^verbatim>\<open>partitionEqual_func\<close>, with its two inner loops and the loop around them.\<close>

function scanUpEqual :: "('a \<Rightarrow> 'a \<Rightarrow> bool) \<Rightarrow> 'a list \<Rightarrow> int \<Rightarrow> int \<Rightarrow> int \<Rightarrow> int" where
  "scanUpEqual lessFn data a i j =
     (if i \<le> j \<and> \<not> data_Less lessFn data a i then scanUpEqual lessFn data a (i + 1) j else i)"
  by pat_completeness auto
termination
  by (relation "measure (\<lambda>(lessFn, data, a, i, j). nat (j + 1 - i))") auto

function scanDownEqual :: "('a \<Rightarrow> 'a \<Rightarrow> bool) \<Rightarrow> 'a list \<Rightarrow> int \<Rightarrow> int \<Rightarrow> int \<Rightarrow> int" where
  "scanDownEqual lessFn data a i j =
     (if i \<le> j \<and> data_Less lessFn data a j then scanDownEqual lessFn data a i (j - 1) else j)"
  by pat_completeness auto
termination
  by (relation "measure (\<lambda>(lessFn, data, a, i, j). nat (j + 1 - i))") auto

declare scanUpEqual.simps [simp del] scanDownEqual.simps [simp del]

lemma scanUpEqual_ge: "i \<le> scanUpEqual lessFn data a i j"
  by (induction lessFn data a i j rule: scanUpEqual.induct) (subst scanUpEqual.simps, auto)

lemma scanDownEqual_le: "scanDownEqual lessFn data a i j \<le> j"
  by (induction lessFn data a i j rule: scanDownEqual.induct) (subst scanDownEqual.simps, auto)

function partitionEqual_loop :: "('a \<Rightarrow> 'a \<Rightarrow> bool) \<Rightarrow> 'a list \<Rightarrow> int \<Rightarrow> int \<Rightarrow> int \<Rightarrow> 'a list \<times> int" where
  "partitionEqual_loop lessFn data a i j =
     (let i' = scanUpEqual lessFn data a i j;
          j' = scanDownEqual lessFn data a i' j
      in if i' > j' then (data, i')
         else partitionEqual_loop lessFn (data_Swap data i' j') a (i' + 1) (j' - 1))"
  by pat_completeness auto
termination
proof (relation "measure (\<lambda>(lessFn, data, a, i, j). nat (j + 1 - i))", goal_cases)
  case 1
  show ?case by simp
next
  case (2 lessFn data a i j i' j')
  with scanUpEqual_ge [of i lessFn data a j] scanDownEqual_le [of lessFn data a i' j]
  show ?case by simp
qed

declare partitionEqual_loop.simps [simp del]

definition partitionEqual_func ::
  "('a \<Rightarrow> 'a \<Rightarrow> bool) \<Rightarrow> 'a list \<Rightarrow> int \<Rightarrow> int \<Rightarrow> int \<Rightarrow> 'a list \<times> int" where
  "partitionEqual_func lessFn data a b pivot =
     partitionEqual_loop lessFn (data_Swap data a pivot) a (a + 1) (b - 1)"

text \<open>
  \<^verbatim>\<open>partialInsertionSort_func\<close>: the scan for the next pair out of order, the two
  shifting loops, and the outer loop of at most \<^verbatim>\<open>maxSteps\<close> = 5 rounds.
\<close>

function pis_scan :: "('a \<Rightarrow> 'a \<Rightarrow> bool) \<Rightarrow> 'a list \<Rightarrow> int \<Rightarrow> int \<Rightarrow> int" where
  "pis_scan lessFn data b i =
     (if i < b \<and> \<not> data_Less lessFn data i (i - 1) then pis_scan lessFn data b (i + 1) else i)"
  by pat_completeness auto
termination
  by (relation "measure (\<lambda>(lessFn, data, b, i). nat (b - i))") auto

function shiftLeft :: "('a \<Rightarrow> 'a \<Rightarrow> bool) \<Rightarrow> 'a list \<Rightarrow> int \<Rightarrow> 'a list" where
  "shiftLeft lessFn data j =
     (if j \<ge> 1 then
        (if \<not> data_Less lessFn data j (j - 1) then data
         else shiftLeft lessFn (data_Swap data j (j - 1)) (j - 1))
      else data)"
  by pat_completeness auto
termination
  by (relation "measure (\<lambda>(lessFn, data, j). nat j)") auto

function shiftRight :: "('a \<Rightarrow> 'a \<Rightarrow> bool) \<Rightarrow> 'a list \<Rightarrow> int \<Rightarrow> int \<Rightarrow> 'a list" where
  "shiftRight lessFn data b j =
     (if j < b then
        (if \<not> data_Less lessFn data j (j - 1) then data
         else shiftRight lessFn (data_Swap data j (j - 1)) b (j + 1))
      else data)"
  by pat_completeness auto
termination
  by (relation "measure (\<lambda>(lessFn, data, b, j). nat (b - j))") auto

primrec pis_steps :: "nat \<Rightarrow> ('a \<Rightarrow> 'a \<Rightarrow> bool) \<Rightarrow> 'a list \<Rightarrow> int \<Rightarrow> int \<Rightarrow> int \<Rightarrow> 'a list \<times> bool" where
  "pis_steps 0 lessFn data a b i = (data, False)"
| "pis_steps (Suc n) lessFn data a b i0 =
     (let i = pis_scan lessFn data b i0 in
      if i = b then (data, True)
      else if b - a < 50 then (data, False)
      else
        let data1 = data_Swap data i (i - 1);
            data2 = (if i - a \<ge> 2 then shiftLeft lessFn data1 (i - 1) else data1);
            data3 = (if b - i \<ge> 2 then shiftRight lessFn data2 b (i + 1) else data2)
        in pis_steps n lessFn data3 a b i)"

definition partialInsertionSort_func ::
  "('a \<Rightarrow> 'a \<Rightarrow> bool) \<Rightarrow> 'a list \<Rightarrow> int \<Rightarrow> int \<Rightarrow> 'a list \<times> bool" where
  "partialInsertionSort_func lessFn data a b = pis_steps 5 lessFn data a b (a + 1)"

text \<open>
  \<^verbatim>\<open>breakPatterns_func\<close>, with \<^verbatim>\<open>bits.Len\<close>, the 64-bit generator \<^verbatim>\<open>xorshift\<close> and the
  loop of three swaps. \<^verbatim>\<open>nextPowerOfTwo(length)\<close> is \<open>push_bit (bits_Len length) 1\<close>.
\<close>

function bits_Len :: "nat \<Rightarrow> nat" where
  "bits_Len n = (if n = 0 then 0 else Suc (bits_Len (n div 2)))"
  by pat_completeness auto
termination
  by (relation "measure (\<lambda>n. n)") auto

declare bits_Len.simps [simp del]

definition xorshift_Next :: "int \<Rightarrow> int" where
  "xorshift_Next r0 =
     (let r1 = take_bit 64 (xor r0 (push_bit 13 r0));
          r2 = xor r1 (drop_bit 7 r1)
      in take_bit 64 (xor r2 (push_bit 17 r2)))"

primrec breakPatterns_loop ::
  "nat \<Rightarrow> 'a list \<Rightarrow> int \<Rightarrow> int \<Rightarrow> int \<Rightarrow> int \<Rightarrow> int \<Rightarrow> int \<Rightarrow> 'a list" where
  "breakPatterns_loop 0 data a len idx modulus random i = data"
| "breakPatterns_loop (Suc n) data a len idx modulus random0 i =
     (let random = xorshift_Next random0;
          other0 = and random (modulus - 1);
          other = (if other0 \<ge> len then other0 - len else other0)
      in breakPatterns_loop n (data_Swap data (idx - 1 + i) (a + other)) a len idx modulus random
           (i + 1))"

definition breakPatterns_func :: "'a list \<Rightarrow> int \<Rightarrow> int \<Rightarrow> 'a list" where
  "breakPatterns_func data a b =
     (let len = b - a in
      if len \<ge> 8 then
        breakPatterns_loop 3 data a len (a + (len div 4) * 2 - 1)
          (push_bit (bits_Len (nat len)) 1) len 0
      else data)"

text \<open>
  \<^verbatim>\<open>choosePivot_func\<close> with \<^verbatim>\<open>order2_func\<close>, \<^verbatim>\<open>median_func\<close> and
  \<^verbatim>\<open>medianAdjacent_func\<close>; the counter \<^verbatim>\<open>swaps\<close> is passed along. The lengths divided
  here are positive, where Go's division and \<open>div\<close> agree.
\<close>

datatype sortedHint = unknownHint | increasingHint | decreasingHint

definition order2_func ::
  "('a \<Rightarrow> 'a \<Rightarrow> bool) \<Rightarrow> 'a list \<Rightarrow> int \<Rightarrow> int \<Rightarrow> nat \<Rightarrow> int \<times> int \<times> nat" where
  "order2_func lessFn data a b swaps =
     (if data_Less lessFn data b a then (b, a, swaps + 1) else (a, b, swaps))"

definition median_func ::
  "('a \<Rightarrow> 'a \<Rightarrow> bool) \<Rightarrow> 'a list \<Rightarrow> int \<Rightarrow> int \<Rightarrow> int \<Rightarrow> nat \<Rightarrow> int \<times> nat" where
  "median_func lessFn data a0 b0 c0 swaps0 =
     (let (a1, b1, swaps1) = order2_func lessFn data a0 b0 swaps0;
          (b2, c2, swaps2) = order2_func lessFn data b1 c0 swaps1;
          (a3, b3, swaps3) = order2_func lessFn data a1 b2 swaps2
      in (b3, swaps3))"

definition medianAdjacent_func ::
  "('a \<Rightarrow> 'a \<Rightarrow> bool) \<Rightarrow> 'a list \<Rightarrow> int \<Rightarrow> nat \<Rightarrow> int \<times> nat" where
  "medianAdjacent_func lessFn data a swaps = median_func lessFn data (a - 1) a (a + 1) swaps"

definition choosePivot_func ::
  "('a \<Rightarrow> 'a \<Rightarrow> bool) \<Rightarrow> 'a list \<Rightarrow> int \<Rightarrow> int \<Rightarrow> int \<times> sortedHint" where
  "choosePivot_func lessFn data a b =
     (let l = b - a;
          i0 = a + l div 4 * 1;
          j0 = a + l div 4 * 2;
          k0 = a + l div 4 * 3;
          (j, swaps) =
            (if l \<ge> 8 then
               (if l \<ge> 50 then
                  (let (i1, s1) = medianAdjacent_func lessFn data i0 0;
                       (j1, s2) = medianAdjacent_func lessFn data j0 s1;
                       (k1, s3) = medianAdjacent_func lessFn data k0 s2
                   in median_func lessFn data i1 j1 k1 s3)
                else median_func lessFn data i0 j0 k0 0)
             else (j0, 0))
      in if swaps = 0 then (j, increasingHint)
         else if swaps = 4 * 3 then (j, decreasingHint)
         else (j, unknownHint))"

text \<open>\<^verbatim>\<open>reverseRange_func\<close>.\<close>

function reverseRange_loop :: "'a list \<Rightarrow> int \<Rightarrow> int \<Rightarrow> 'a list" where
  "reverseRange_loop data i j =
     (if i < j then reverseRange_loop (data_Swap data i j) (i + 1) (j - 1) else data)"
  by pat_completeness auto
termination
  by (relation "measure (\<lambda>(data, i, j). nat (j - i))") auto

definition reverseRange_func :: "'a list \<Rightarrow> int \<Rightarrow> int \<Rightarrow> 'a list" where
  "reverseRange_func data a b = reverseRange_loop data a (b - 1)"


text \<open>
  \<^verbatim>\<open>partition_func\<close> puts the pivot inside the range and \<^verbatim>\<open>partitionEqual_func\<close> returns
  an index above \<open>a\<close>, whatever the comparison; so \<^verbatim>\<open>pdqsort_func\<close> always works on a
  shorter range next.
\<close>

lemma scanUp_le: "i \<le> j + 1 \<Longrightarrow> scanUp lessFn data a i j \<le> j + 1"
  by (induction lessFn data a i j rule: scanUp.induct) (subst scanUp.simps, auto)

lemma partition_loop_bounds:
  "a + 1 \<le> i \<Longrightarrow> a \<le> j \<Longrightarrow>
     a \<le> snd (partition_loop lessFn data a i j) \<and> snd (partition_loop lessFn data a i j) \<le> j"
proof (induction lessFn data a i j rule: partition_loop.induct)
  case (1 lessFn data a i j)
  define i' where "i' = scanUp lessFn data a i j"
  define j' where "j' = scanDown lessFn data a i' j"
  have i': "i \<le> i'" unfolding i'_def by (rule scanUp_ge)
  have j': "j' \<le> j" unfolding j'_def by (rule scanDown_le)
  have jl: "a \<le> j'"
  proof (cases "i' - 1 \<le> j")
    case True
    then have "i' - 1 \<le> j'" unfolding j'_def by (rule scanDown_ge)
    with i' 1(2) show ?thesis by simp
  next
    case False
    then have "j' = j" unfolding j'_def by (subst scanDown.simps) simp
    with 1(3) show ?thesis by simp
  qed
  show ?case
  proof (cases "i' > j'")
    case True
    then show ?thesis using jl j'
      by (subst (1 2) partition_loop.simps) (simp add: Let_def i'_def [symmetric] j'_def [symmetric])
  next
    case False
    have "a \<le> snd (partition_loop lessFn (data_Swap data i' j') a (i' + 1) (j' - 1))
        \<and> snd (partition_loop lessFn (data_Swap data i' j') a (i' + 1) (j' - 1)) \<le> j' - 1"
      using False i' 1(2) by (intro "1.IH" [OF i'_def j'_def]) auto
    then show ?thesis using False j'
      by (subst (1 2) partition_loop.simps) (simp add: Let_def i'_def [symmetric] j'_def [symmetric])
  qed
qed

lemma partition_func_bounds:
  assumes "a < b"
  shows "a \<le> fst (snd (partition_func lessFn data a b pivot))
       \<and> fst (snd (partition_func lessFn data a b pivot)) < b"
proof -
  define d where "d = data_Swap data a pivot"
  define i where "i = scanUp lessFn d a (a + 1) (b - 1)"
  define j where "j = scanDown lessFn d a i (b - 1)"
  have i1: "a + 1 \<le> i" unfolding i_def by (rule scanUp_ge)
  have i2: "i \<le> b" unfolding i_def using scanUp_le [of "a + 1" "b - 1" lessFn d a] assms by simp
  have j1: "j \<le> b - 1" unfolding j_def by (rule scanDown_le)
  have j2: "i - 1 \<le> j" unfolding j_def using i2 by (intro scanDown_ge) simp
  show ?thesis
  proof (cases "i > j")
    case True
    then show ?thesis using i1 j1 j2
      by (simp add: partition_func_def Let_def d_def [symmetric] i_def [symmetric] j_def [symmetric])
  next
    case False
    then have "a \<le> snd (partition_loop lessFn (data_Swap d i j) a (i + 1) (j - 1))
        \<and> snd (partition_loop lessFn (data_Swap d i j) a (i + 1) (j - 1)) \<le> j - 1"
      using i1 by (intro partition_loop_bounds) auto
    then show ?thesis using False j1
      by (auto simp add: partition_func_def Let_def d_def [symmetric] i_def [symmetric]
            j_def [symmetric] split: prod.splits)
  qed
qed

lemma partition_func_ge: "a < b \<Longrightarrow> a \<le> fst (snd (partition_func lessFn data a b pivot))"
  using partition_func_bounds by blast

lemma partition_func_less: "a < b \<Longrightarrow> fst (snd (partition_func lessFn data a b pivot)) < b"
  using partition_func_bounds by blast

lemma partitionEqual_loop_bound: "i \<le> snd (partitionEqual_loop lessFn data a i j)"
proof (induction lessFn data a i j rule: partitionEqual_loop.induct)
  case (1 lessFn data a i j)
  define i' where "i' = scanUpEqual lessFn data a i j"
  define j' where "j' = scanDownEqual lessFn data a i' j"
  have i': "i \<le> i'" unfolding i'_def by (rule scanUpEqual_ge)
  show ?case
  proof (cases "i' > j'")
    case True
    then show ?thesis using i'
      by (subst partitionEqual_loop.simps) (simp add: Let_def i'_def [symmetric] j'_def [symmetric])
  next
    case False
    then have "i' + 1 \<le> snd (partitionEqual_loop lessFn (data_Swap data i' j') a (i' + 1) (j' - 1))"
      by (intro "1.IH" [OF i'_def j'_def]) auto
    then show ?thesis using False i'
      by (subst partitionEqual_loop.simps) (simp add: Let_def i'_def [symmetric] j'_def [symmetric])
  qed
qed

lemma partitionEqual_func_bound: "a < snd (partitionEqual_func lessFn data a b pivot)"
  using partitionEqual_loop_bound [of "a + 1" lessFn "data_Swap data a pivot" a "b - 1"]
  by (simp add: partitionEqual_func_def)

text \<open>
  \<^verbatim>\<open>pdqsort_func\<close>. One unfolding is one round of its loop; the variables
  \<^verbatim>\<open>wasBalanced\<close> and \<^verbatim>\<open>wasPartitioned\<close> of the loop are arguments, \<open>True\<close> at every
  call from outside.
\<close>

function pdqsort_func ::
  "('a \<Rightarrow> 'a \<Rightarrow> bool) \<Rightarrow> 'a list \<Rightarrow> int \<Rightarrow> int \<Rightarrow> int \<Rightarrow> bool \<Rightarrow> bool \<Rightarrow> 'a list" where
  "pdqsort_func lessFn data0 a b limit0 wasBalanced wasPartitioned =
     (if b - a \<le> 12 then insertionSort_func lessFn data0 a b
      else if limit0 = 0 then heapSort_func lessFn data0 a b
      else
        let data1 = (if \<not> wasBalanced then breakPatterns_func data0 a b else data0);
            limit = (if \<not> wasBalanced then limit0 - 1 else limit0);
            pivot0 = fst (choosePivot_func lessFn data1 a b);
            hint0 = snd (choosePivot_func lessFn data1 a b);
            data2 = (if hint0 = decreasingHint then reverseRange_func data1 a b else data1);
            pivot = (if hint0 = decreasingHint then (b - 1) - (pivot0 - a) else pivot0);
            hint = (if hint0 = decreasingHint then increasingHint else hint0);
            tried = (if wasBalanced \<and> wasPartitioned \<and> hint = increasingHint
                     then partialInsertionSort_func lessFn data2 a b else (data2, False));
            data3 = fst tried
        in if snd tried then data3
           else if a > 0 \<and> \<not> data_Less lessFn data3 (a - 1) pivot then
             pdqsort_func lessFn (fst (partitionEqual_func lessFn data3 a b pivot))
               (snd (partitionEqual_func lessFn data3 a b pivot)) b limit wasBalanced wasPartitioned
           else
             let data4 = fst (partition_func lessFn data3 a b pivot);
                 mid = fst (snd (partition_func lessFn data3 a b pivot));
                 alreadyPartitioned = snd (snd (partition_func lessFn data3 a b pivot));
                 leftLen = mid - a;
                 rightLen = b - mid;
                 balanceThreshold = (b - a) div 8
             in if leftLen < rightLen then
                  pdqsort_func lessFn (pdqsort_func lessFn data4 a mid limit True True)
                    (mid + 1) b limit (leftLen \<ge> balanceThreshold) alreadyPartitioned
                else
                  pdqsort_func lessFn (pdqsort_func lessFn data4 (mid + 1) b limit True True)
                    a mid limit (rightLen \<ge> balanceThreshold) alreadyPartitioned)"
  by pat_completeness auto
termination
proof (relation "measure (\<lambda>(lessFn, data, a, b, limit, wb, wp). nat (b - a))", goal_cases)
  case 1
  show ?case by simp
next
  case 2
  from 2(1) show ?case by (simp add: partitionEqual_func_bound)
next
  case (3 lessFn data0 a b limit0 wb wp data1 limit pivot0 hint0 data2 pivot hint tried data3 data4 mid ap leftLen rightLen bt)
  from 3(1) have ab: "a < b" by simp
  have "a \<le> mid" "mid < b"
    unfolding 3(15) using partition_func_bounds [OF ab] by blast+
  with ab show ?case by simp
next
  case (4 lessFn data0 a b limit0 wb wp data1 limit pivot0 hint0 data2 pivot hint tried data3 data4 mid ap leftLen rightLen bt)
  from 4(1) have ab: "a < b" by simp
  have "a \<le> mid" "mid < b"
    unfolding 4(15) using partition_func_bounds [OF ab] by blast+
  with ab show ?case by simp
next
  case (5 lessFn data0 a b limit0 wb wp data1 limit pivot0 hint0 data2 pivot hint tried data3 data4 mid ap leftLen rightLen bt)
  from 5(1) have ab: "a < b" by simp
  have "a \<le> mid" "mid < b"
    unfolding 5(15) using partition_func_bounds [OF ab] by blast+
  with ab show ?case by simp
next
  case (6 lessFn data0 a b limit0 wb wp data1 limit pivot0 hint0 data2 pivot hint tried data3 data4 mid ap leftLen rightLen bt)
  from 6(1) have ab: "a < b" by simp
  have "a \<le> mid" "mid < b"
    unfolding 6(15) using partition_func_bounds [OF ab] by blast+
  with ab show ?case by simp
qed


declare pdqsort_func.simps [simp del]

text \<open>\<^verbatim>\<open>sort.Slice\<close>.\<close>

definition sort_Slice :: "('a \<Rightarrow> 'a \<Rightarrow> bool) \<Rightarrow> 'a list \<Rightarrow> 'a list" where
  "sort_Slice lessFn x =
     pdqsort_func lessFn x 0 (int (length x)) (int (bits_Len (length x))) True True"


subsection \<open>The engine\<close>

text \<open>
  \<^verbatim>\<open>NewRuleEngine\<close>: \<^verbatim>\<open>make\<close> and \<^verbatim>\<open>copy\<close> give a fresh slice with the rules of the caller,
  and that slice is sorted.
\<close>

definition NewRuleEngine :: "Rule list \<Rightarrow> RuleEngine" where
  "NewRuleEngine rules0 =
     (let sortedRules = take (length rules0) rules0
      in \<lparr>rules = sort_Slice (\<lambda>ri rj. Priority ri > Priority rj) sortedRules\<rparr>)"

type_synonym LDAPScope = int

definition ScopeBase :: LDAPScope where "ScopeBase = 0"
definition ScopeOne :: LDAPScope where "ScopeOne = 1"
definition ScopeSub :: LDAPScope where "ScopeSub = 2"

definition ParseScope :: "string \<Rightarrow> LDAPScope" where
  "ParseScope s =
     (if ToLower s = ''base'' then ScopeBase
      else if ToLower s = ''one'' then ScopeOne
      else if ToLower s = ''sub'' then ScopeSub
      else ScopeSub)"

record SearchRequest =
  reqBaseDN :: string
  reqScope :: LDAPScope
  reqFilter :: string

text \<open>The loop of \<^verbatim>\<open>FindMatchingRule\<close>; \<open>None\<close> is Go's \<^verbatim>\<open>nil\<close>.\<close>

fun findRule :: "Rule list \<Rightarrow> SearchRequest \<Rightarrow> Rule option" where
  "findRule [] req = None"
| "findRule (rule # rest) req =
     (if BaseDN rule \<noteq> [] \<and> \<not> EqualFold (BaseDN rule) (reqBaseDN req) then findRule rest req
      else if Scope rule \<noteq> [] \<and> ParseScope (Scope rule) \<noteq> reqScope req then findRule rest req
      else if \<not> matchRuleFilter (ruleFilter rule) (reqFilter req) then findRule rest req
      else Some rule)"

definition FindMatchingRule :: "RuleEngine \<Rightarrow> SearchRequest \<Rightarrow> Rule option" where
  "FindMatchingRule e req = findRule (rules e) req"

section \<open>Selecting fixture records\<close>

text \<open>
  The attribute map that \<^verbatim>\<open>filterUsers\<close> builds for one user: the identity field under
  \<open>cn\<close> first, then the loop over the declared attributes.
\<close>

fun copyAttrs :: "gomap \<Rightarrow> gomap \<Rightarrow> gomap" where
  "copyAttrs [] attrs = attrs"
| "copyAttrs ((k, v) # rest) attrs = copyAttrs rest (AList.update k v attrs)"

definition userAttrs :: "User \<Rightarrow> gomap" where
  "userAttrs user = copyAttrs (Attrs user) (AList.update ''cn'' (CN user) [])"

text \<open>
  \<^verbatim>\<open>MatchFilter\<close> ranges over the map that \<^verbatim>\<open>filterUsers\<close> has just built, and Go does not
  fix the order in which a map is visited. \<open>rangeOrder\<close> is that order: it takes the
  entries of the map and gives them back as the run visits them. A statement about
  \<open>filterUsers\<close> is made for every \<open>rangeOrder\<close>.
\<close>

definition filterUsers :: "(gomap \<Rightarrow> gomap) \<Rightarrow> User list \<Rightarrow> string \<Rightarrow> User list" where
  "filterUsers rangeOrder users filterStr =
     (if filterStr = ''(objectClass=*)'' \<or> filterStr = [] then users
      else
        (case ParseFilter filterStr of
           Inl err \<Rightarrow> users
         | Inr flt \<Rightarrow>
             filter (\<lambda>user. MatchFilter flt (rangeOrder (userAttrs user))) users))"

definition buildFilter :: "string \<Rightarrow> string \<Rightarrow> string" where
  "buildFilter attr val =
     (if attr = [] \<or> attr = ''searchFingerprint'' then ''(objectClass=*)''
      else ''('' @ attr @ ''='' @ val @ '')'')"

section \<open>Properties\<close>

subsection \<open>The search filter built from a request\<close>

text \<open>
  Claim C9. \<open>buildFilter\<close> returns the universal filter \<open>(objectClass=*)\<close> when the
  attribute is empty and also when it is the reserved name \<open>searchFingerprint\<close>; for any
  other attribute it returns the attribute, \<open>=\<close> and the value between parentheses, the
  value copied without any escaping.
\<close>

theorem buildFilter_cases:
  "buildFilter [] val = ''(objectClass=*)''
   \<and> buildFilter ''searchFingerprint'' val = ''(objectClass=*)''
   \<and> (attr \<noteq> [] \<and> attr \<noteq> ''searchFingerprint''
        \<longrightarrow> buildFilter attr val = ''('' @ attr @ ''='' @ val @ '')'')"
  by (simp add: buildFilter_def)

theorem buildFilter_cases_witness:
  "''cn'' \<noteq> [] \<and> ''cn'' \<noteq> ''searchFingerprint''
   \<and> buildFilter ''cn'' ''a)(b=*'' = ''(cn=a)(b=*)''"
  using buildFilter_cases [of "''a)(b=*''" "''cn''"] by simp

subsection \<open>Filters that do not parse\<close>

lemma matchRuleFilter_unparsable:
  "isl (ParseFilter rtext) \<or> isl (ParseFilter qtext) \<Longrightarrow> \<not> matchRuleFilter rtext qtext"
  by (auto simp: matchRuleFilter_def split: sum.splits)

lemma findRule_drop_unparsable:
  "findRule rs req = findRule (filter (\<lambda>r. \<not> isl (ParseFilter (ruleFilter r))) rs) req"
  by (induction rs) (auto simp: matchRuleFilter_unparsable)

lemma findRule_unparsable_request:
  "isl (ParseFilter (reqFilter req)) \<Longrightarrow> findRule rs req = None"
  by (induction rs) (auto simp: matchRuleFilter_unparsable)

text \<open>
  Claim C7. \<open>FindMatchingRule\<close> is a total function into \<open>Rule option\<close>, so it has no
  error to raise. When the filter text of a rule does not parse, or the filter text of
  the request does not parse, \<open>matchRuleFilter\<close> is false for that rule and the search
  goes on with the rules after it. So the rules whose filter does not parse can be left
  out of the list without changing the result, and a request whose filter does not
  parse finds no rule.
\<close>

theorem FindMatchingRule_skips_unparsable:
  "(isl (ParseFilter (ruleFilter rule)) \<or> isl (ParseFilter (reqFilter req)) \<longrightarrow>
      \<not> matchRuleFilter (ruleFilter rule) (reqFilter req)
      \<and> FindMatchingRule \<lparr>rules = rule # rest\<rparr> req = FindMatchingRule \<lparr>rules = rest\<rparr> req)
   \<and> FindMatchingRule \<lparr>rules = rs\<rparr> req
       = FindMatchingRule \<lparr>rules = filter (\<lambda>r. \<not> isl (ParseFilter (ruleFilter r))) rs\<rparr> req
   \<and> (isl (ParseFilter (reqFilter req)) \<longrightarrow> FindMatchingRule \<lparr>rules = rs\<rparr> req = None)"
  using matchRuleFilter_unparsable [of "ruleFilter rule" "reqFilter req"]
    findRule_drop_unparsable [of rs req] findRule_unparsable_request [of req rs]
  by (simp add: FindMatchingRule_def)

definition exampleRule :: "string \<Rightarrow> string \<Rightarrow> int \<Rightarrow> Rule" where
  "exampleRule name flt prio =
     \<lparr>ID = name, Name = name, ruleFilter = flt, BaseDN = [], Scope = [], Priority = prio,
      Response = \<lparr>Users = [], Groups = []\<rparr>\<rparr>"

theorem FindMatchingRule_skips_unparsable_witness:
  "isl (ParseFilter (ruleFilter (exampleRule ''broken'' ''cn=test'' 10)))
   \<and> FindMatchingRule
        \<lparr>rules = [exampleRule ''broken'' ''cn=test'' 10, exampleRule ''good'' ''(cn=test)'' 1]\<rparr>
        \<lparr>reqBaseDN = ''dc=example'', reqScope = ScopeSub, reqFilter = ''(cn=test)''\<rparr>
      = Some (exampleRule ''good'' ''(cn=test)'' 1)
   \<and> isl (ParseFilter ''(cn=test'')
   \<and> FindMatchingRule
        \<lparr>rules = [exampleRule ''broken'' ''cn=test'' 10, exampleRule ''good'' ''(cn=test)'' 1]\<rparr>
        \<lparr>reqBaseDN = ''dc=example'', reqScope = ScopeSub, reqFilter = ''(cn=test''\<rparr>
      = None"
proof -
  have p: "isl (ParseFilter (ruleFilter (exampleRule ''broken'' ''cn=test'' 10)))"
    by code_simp
  have q: "FindMatchingRule \<lparr>rules = [exampleRule ''good'' ''(cn=test)'' 1]\<rparr>
        \<lparr>reqBaseDN = ''dc=example'', reqScope = ScopeSub, reqFilter = ''(cn=test)''\<rparr>
      = Some (exampleRule ''good'' ''(cn=test)'' 1)"
    by code_simp
  have r: "isl (ParseFilter ''(cn=test'')" by code_simp
  from p q FindMatchingRule_skips_unparsable
    [of "exampleRule ''broken'' ''cn=test'' 10"
        "\<lparr>reqBaseDN = ''dc=example'', reqScope = ScopeSub, reqFilter = ''(cn=test)''\<rparr>"
        "[exampleRule ''good'' ''(cn=test)'' 1]"]
  have a: "FindMatchingRule
        \<lparr>rules = [exampleRule ''broken'' ''cn=test'' 10, exampleRule ''good'' ''(cn=test)'' 1]\<rparr>
        \<lparr>reqBaseDN = ''dc=example'', reqScope = ScopeSub, reqFilter = ''(cn=test)''\<rparr>
      = Some (exampleRule ''good'' ''(cn=test)'' 1)" by simp
  have "isl (ParseFilter (reqFilter
          \<lparr>reqBaseDN = ''dc=example'', reqScope = ScopeSub, reqFilter = ''(cn=test''\<rparr>))"
    using r by simp
  with FindMatchingRule_skips_unparsable
    [of "exampleRule ''broken'' ''cn=test'' 10"
        "\<lparr>reqBaseDN = ''dc=example'', reqScope = ScopeSub, reqFilter = ''(cn=test''\<rparr>"
        "[]"
        "[exampleRule ''broken'' ''cn=test'' 10, exampleRule ''good'' ''(cn=test)'' 1]",
     THEN conjunct2, THEN conjunct2]
  have b: "FindMatchingRule
        \<lparr>rules = [exampleRule ''broken'' ''cn=test'' 10, exampleRule ''good'' ''(cn=test)'' 1]\<rparr>
        \<lparr>reqBaseDN = ''dc=example'', reqScope = ScopeSub, reqFilter = ''(cn=test''\<rparr>
      = None" by (rule mp)
  from p a r b show ?thesis by blast
qed


text \<open>
  Claim C8. \<open>filterUsers\<close> returns the records as they are when the filter text is
  \<open>(objectClass=*)\<close> or empty, and also when the text does not parse. So whenever the
  result differs from the input, the text is neither of the two and it has parsed. This
  holds in whatever order the attribute maps are visited.
\<close>

theorem filterUsers_fail_open:
  "(filterStr = ''(objectClass=*)'' \<or> filterStr = [] \<or> isl (ParseFilter filterStr)
      \<longrightarrow> filterUsers rangeOrder users filterStr = users)
   \<and> (filterUsers rangeOrder users filterStr \<noteq> users
      \<longrightarrow> filterStr \<noteq> ''(objectClass=*)'' \<and> filterStr \<noteq> [] \<and> \<not> isl (ParseFilter filterStr))"
  by (auto simp: filterUsers_def split: sum.splits)

theorem filterUsers_fail_open_witness:
  "isl (ParseFilter ''cn=John'')
   \<and> filterUsers rev [\<lparr>CN = ''jane'', Attrs = []\<rparr>] ''cn=John'' = [\<lparr>CN = ''jane'', Attrs = []\<rparr>]
   \<and> filterUsers rev [\<lparr>CN = ''jane'', Attrs = []\<rparr>] ''(cn=John)'' \<noteq> [\<lparr>CN = ''jane'', Attrs = []\<rparr>]
   \<and> \<not> isl (ParseFilter ''(cn=John)'')"
proof -
  have p: "isl (ParseFilter ''cn=John'')" by code_simp
  have q: "filterUsers rev [\<lparr>CN = ''jane'', Attrs = []\<rparr>] ''(cn=John)'' = []" by code_simp
  from p q filterUsers_fail_open [of "''cn=John''" rev "[\<lparr>CN = ''jane'', Attrs = []\<rparr>]"]
    filterUsers_fail_open [of "''(cn=John)''" rev "[\<lparr>CN = ''jane'', Attrs = []\<rparr>]"]
  show ?thesis by simp
qed

subsection \<open>And and Or in the structural comparison\<close>

lemma filtersMatch_same_AndOr:
  assumes "rT = FilterAnd \<or> rT = FilterOr"
  shows "filtersMatch (Filter rT ra rv rc ri rn rf) (Filter rT qa qv qc qi qn qf)
     \<longleftrightarrow> length rc \<le> length qc \<and> (\<forall>r \<in> set rc. \<exists>q \<in> set qc. filtersMatch r q)"
  using assms by (auto simp: list_all_iff list_ex_iff)

text \<open>
  Claim C1. When the rule node and the request node are both And or both Or,
  \<open>filtersMatch\<close> holds exactly when the rule has no more children than the request and
  every child of the rule matches some child of the request (each one searched on its
  own, so two rule children may use the same request child). The rule \<open>(&(cn=John))\<close>
  matches the request \<open>(&(cn=John)(mail=john@example.com))\<close>, and not the other way round.
\<close>

theorem filtersMatch_And_Or:
  "(Type rule = Type req \<and> (Type rule = FilterAnd \<or> Type rule = FilterOr) \<longrightarrow>
      (filtersMatch rule req \<longleftrightarrow>
         length (Children rule) \<le> length (Children req)
         \<and> (\<forall>ruleChild \<in> set (Children rule). \<exists>reqChild \<in> set (Children req).
               filtersMatch ruleChild reqChild)))
   \<and> (\<exists>r q. ParseFilter ''(&(cn=John))'' = Inr r
          \<and> ParseFilter ''(&(cn=John)(mail=john@example.com))'' = Inr q
          \<and> filtersMatch r q \<and> \<not> filtersMatch q r)"
proof
  show "Type rule = Type req \<and> (Type rule = FilterAnd \<or> Type rule = FilterOr) \<longrightarrow>
      (filtersMatch rule req \<longleftrightarrow>
         length (Children rule) \<le> length (Children req)
         \<and> (\<forall>ruleChild \<in> set (Children rule). \<exists>reqChild \<in> set (Children req).
               filtersMatch ruleChild reqChild))"
    by (cases rule; cases req)
       (auto simp del: filtersMatch.simps simp: filtersMatch_same_AndOr)
next
  have a: "ParseFilter ''(&(cn=John))''
        = Inr (Filter FilterAnd [] [] [Filter FilterEqual ''cn'' ''John'' [] [] [] []] [] [] [])"
    by code_simp
  have b: "ParseFilter ''(&(cn=John)(mail=john@example.com))''
        = Inr (Filter FilterAnd [] []
             [Filter FilterEqual ''cn'' ''John'' [] [] [] [],
              Filter FilterEqual ''mail'' ''john@example.com'' [] [] [] []] [] [] [])"
    by code_simp
  have c: "filtersMatch
      (Filter FilterAnd [] [] [Filter FilterEqual ''cn'' ''John'' [] [] [] []] [] [] [])
      (Filter FilterAnd [] []
             [Filter FilterEqual ''cn'' ''John'' [] [] [] [],
              Filter FilterEqual ''mail'' ''john@example.com'' [] [] [] []] [] [] [])"
    by code_simp
  have d: "\<not> filtersMatch
      (Filter FilterAnd [] []
             [Filter FilterEqual ''cn'' ''John'' [] [] [] [],
              Filter FilterEqual ''mail'' ''john@example.com'' [] [] [] []] [] [] [])
      (Filter FilterAnd [] [] [Filter FilterEqual ''cn'' ''John'' [] [] [] []] [] [] [])"
    by code_simp
  show "\<exists>r q. ParseFilter ''(&(cn=John))'' = Inr r
          \<and> ParseFilter ''(&(cn=John)(mail=john@example.com))'' = Inr q
          \<and> filtersMatch r q \<and> \<not> filtersMatch q r"
    using a b c d by blast
qed

theorem filtersMatch_And_Or_witness:
  "filtersMatch
     (Filter FilterOr [] [] [Filter FilterPresent ''cn'' [] [] [] [] [],
                             Filter FilterPresent ''CN'' [] [] [] [] []] [] [] [])
     (Filter FilterOr [] [] [Filter FilterPresent ''cn'' [] [] [] [] [],
                             Filter FilterPresent ''mail'' [] [] [] [] []] [] [] [])"
proof -
  have "filtersMatch (Filter FilterPresent ''cn'' [] [] [] [] [])
          (Filter FilterPresent ''cn'' [] [] [] [] [])"
    by code_simp
  moreover have "filtersMatch (Filter FilterPresent ''CN'' [] [] [] [] [])
          (Filter FilterPresent ''cn'' [] [] [] [] [])"
    by code_simp
  ultimately show ?thesis
    using filtersMatch_And_Or
      [of "Filter FilterOr [] [] [Filter FilterPresent ''cn'' [] [] [] [] [],
                             Filter FilterPresent ''CN'' [] [] [] [] []] [] [] []"
          "Filter FilterOr [] [] [Filter FilterPresent ''cn'' [] [] [] [] [],
                             Filter FilterPresent ''mail'' [] [] [] [] []] [] [] []"]
    by (simp del: filtersMatch.simps)
qed

subsection \<open>The attribute set of a fixture record\<close>

lemma copyAttrs_map_of:
  "distinct (map fst xs) \<Longrightarrow> map_of (copyAttrs xs attrs) = map_of attrs ++ map_of xs"
proof (induction xs arbitrary: attrs)
  case Nil
  then show ?case by simp
next
  case (Cons kv rest)
  obtain k v where kv: "kv = (k, v)" by (cases kv)
  from Cons.prems kv have nk: "k \<notin> fst ` set rest" and d: "distinct (map fst rest)" by auto
  have "map_of (copyAttrs (kv # rest) attrs) = (map_of attrs)(k \<mapsto> v) ++ map_of rest"
    using Cons.IH [OF d] kv by (simp add: update_conv' fun_upd_def)
  also have "\<dots> = map_of attrs ++ map_of (kv # rest)"
  proof -
    from nk have "map_of rest k = None" by (simp add: map_of_eq_None_iff)
    then show ?thesis using kv
      by (auto simp: map_add_def fun_eq_iff split: option.splits)
  qed
  finally show ?case .
qed

lemma copyAttrs_distinct:
  "distinct (map fst attrs) \<Longrightarrow> distinct (map fst (copyAttrs xs attrs))"
  by (induction xs arbitrary: attrs) (auto simp: distinct_update)

lemma userAttrs_map_of:
  "distinct (map fst (Attrs user)) \<Longrightarrow>
     map_of (userAttrs user) = [''cn'' \<mapsto> CN user] ++ map_of (Attrs user)"
  unfolding userAttrs_def using copyAttrs_map_of [of "Attrs user" "[(''cn'', CN user)]"] by simp

lemma userAttrs_distinct: "distinct (map fst (userAttrs user))"
  unfolding userAttrs_def by (rule copyAttrs_distinct) simp

lemma userAttrs_set_declared:
  assumes "distinct (map fst (Attrs user))" and "(''cn'', v) \<in> set (Attrs user)"
  shows "set (userAttrs user) = set (Attrs user)"
proof -
  have "map_of (Attrs user) ''cn'' = Some v" using assms by simp
  then have "map_of (userAttrs user) = map_of (Attrs user)"
    unfolding userAttrs_map_of [OF assms(1)]
    by (auto simp: map_add_def fun_eq_iff split: option.splits)
  then show ?thesis using assms(1) userAttrs_distinct [of user] by (simp add: map_of_inject_set)
qed

lemma userAttrs_set_undeclared:
  assumes "distinct (map fst (Attrs user))" and "''cn'' \<notin> fst ` set (Attrs user)"
  shows "set (userAttrs user) = insert (''cn'', CN user) (set (Attrs user))"
proof -
  have n: "map_of (Attrs user) ''cn'' = None" using assms(2) by (simp add: map_of_eq_None_iff)
  have d: "distinct (map fst ((''cn'', CN user) # Attrs user))" using assms by simp
  have "map_of (userAttrs user) = map_of ((''cn'', CN user) # Attrs user)"
    unfolding userAttrs_map_of [OF assms(1)] using n
    by (auto simp: map_add_def fun_eq_iff split: option.splits)
  then have "set (userAttrs user) = set ((''cn'', CN user) # Attrs user)"
    using d userAttrs_distinct [of user] by (simp only: map_of_inject_set)
  then show ?thesis by simp
qed

lemma normalizeAttrs_other:
  "\<forall>(k, w) \<in> set xs. ToLower k \<noteq> key \<Longrightarrow> normalizeAttrs xs m key = m key"
  by (induction xs arbitrary: m) auto

lemma normalizeAttrs_unique:
  assumes "(k, w) \<in> set xs" and "distinct (map fst xs)"
    and "\<forall>(k', w') \<in> set xs. ToLower k' = ToLower k \<longrightarrow> k' = k"
  shows "normalizeAttrs xs m (ToLower k) = Some w"
  using assms
proof (induction xs arbitrary: m)
  case Nil
  then show ?case by simp
next
  case (Cons kv rest)
  obtain k0 w0 where kv: "kv = (k0, w0)" by (cases kv)
  show ?case
  proof (cases "(k, w) \<in> set rest")
    case True
    with Cons kv show ?thesis by auto
  next
    case False
    with Cons.prems kv have e: "k0 = k" "w0 = w" by auto
    have "\<forall>(k', w') \<in> set rest. ToLower k' \<noteq> ToLower k"
    proof (clarify)
      fix k' w' assume i: "(k', w') \<in> set rest" and l: "ToLower k' = ToLower k"
      from i Cons.prems(3) l have "k' = k" by auto
      moreover from Cons.prems(2) kv e have "k \<notin> fst ` set rest" by auto
      ultimately show False using i by force
    qed
    then show ?thesis using kv e by (simp add: normalizeAttrs_other)
  qed
qed

text \<open>
  Claim C10. For one record, \<open>filterUsers\<close> first stores the identity field under the key
  \<open>cn\<close> and then copies the declared attributes over it: the attribute set is the
  one-entry map from \<open>cn\<close> to the identity field, overridden by the declared
  attributes. So a record that declares \<open>cn\<close> has the declared value under \<open>cn\<close> and no
  trace of the identity field, and a record that does not has the identity field there.
  Whatever stands under \<open>cn\<close> is also what the evaluation reads for \<open>cn\<close> and compares
  with the value of an equality filter on \<open>cn\<close>, in every order in which the map may be
  visited, as long as no other declared key lower-cases to \<open>cn\<close>.
\<close>

theorem userAttrs_declared_cn_overrides:
  assumes "distinct (map fst (Attrs user))"
  shows "map_of (userAttrs user) = [''cn'' \<mapsto> CN user] ++ map_of (Attrs user)
       \<and> ((''cn'', v) \<in> set (Attrs user) \<longrightarrow>
            map_of (userAttrs user) ''cn'' = Some v \<and> set (userAttrs user) = set (Attrs user))
       \<and> (''cn'' \<notin> fst ` set (Attrs user) \<longrightarrow>
            map_of (userAttrs user) ''cn'' = Some (CN user)
            \<and> set (userAttrs user) = insert (''cn'', CN user) (set (Attrs user)))
       \<and> ((\<forall>(k, w) \<in> set (Attrs user). ToLower k = ''cn'' \<longrightarrow> k = ''cn'') \<longrightarrow>
            (\<forall>attrs' x. mset attrs' = mset (userAttrs user)
                 \<and> map_of (userAttrs user) ''cn'' = Some x \<longrightarrow>
               normalizeAttrs attrs' Map.empty ''cn'' = Some x
               \<and> (MatchFilter (Filter FilterEqual ''cn'' val [] [] [] []) attrs'
                    \<longleftrightarrow> EqualFold x val)))"
proof (intro conjI impI allI)
  note d = userAttrs_distinct [of user]
  show m: "map_of (userAttrs user) = [''cn'' \<mapsto> CN user] ++ map_of (Attrs user)"
    by (rule userAttrs_map_of [OF assms])
  show "map_of (userAttrs user) ''cn'' = Some v" if "(''cn'', v) \<in> set (Attrs user)"
    using that assms unfolding m by (simp add: map_add_def)
  show "set (userAttrs user) = set (Attrs user)" if "(''cn'', v) \<in> set (Attrs user)"
    by (rule userAttrs_set_declared [OF assms that])
  show "map_of (userAttrs user) ''cn'' = Some (CN user)" if "''cn'' \<notin> fst ` set (Attrs user)"
    using that unfolding m by (simp add: map_add_def map_of_eq_None_iff [THEN iffD2])
  show "set (userAttrs user) = insert (''cn'', CN user) (set (Attrs user))"
    if "''cn'' \<notin> fst ` set (Attrs user)"
    by (rule userAttrs_set_undeclared [OF assms that])
  fix attrs' x
  assume u: "\<forall>(k, w) \<in> set (Attrs user). ToLower k = ''cn'' \<longrightarrow> k = ''cn''"
    and p: "mset attrs' = mset (userAttrs user) \<and> map_of (userAttrs user) ''cn'' = Some x"
  from p have s': "set attrs' = set (userAttrs user)" by (metis set_mset_mset)
  from p have "mset (map fst attrs') = mset (map fst (userAttrs user))" by (metis mset_map)
  then have d': "distinct (map fst attrs')" using d by (metis mset_eq_imp_distinct_iff)
  from p have inx: "(''cn'', x) \<in> set attrs'" using s' by (auto dest: map_of_SomeD)
  have sub: "set (userAttrs user) \<subseteq> insert (''cn'', CN user) (set (Attrs user))"
  proof
    fix kw assume i0: "kw \<in> set (userAttrs user)"
    obtain k w where kw: "kw = (k, w)" by (cases kw)
    from i0 kw have i: "(k, w) \<in> set (userAttrs user)" by simp
    from i d have "map_of (userAttrs user) k = Some w" by simp
    then have "([''cn'' \<mapsto> CN user] ++ map_of (Attrs user)) k = Some w" unfolding m .
    then have "(k, w) \<in> set (Attrs user) \<or> (k = ''cn'' \<and> w = CN user)"
      by (auto simp: map_add_def split: option.splits if_splits dest: map_of_SomeD)
    then show "kw \<in> insert (''cn'', CN user) (set (Attrs user))" using kw by auto
  qed
  have l: "ToLower ''cn'' = ''cn''" by code_simp
  have uq: "\<forall>(k', w') \<in> set attrs'. ToLower k' = ToLower ''cn'' \<longrightarrow> k' = ''cn''"
    using u sub s' l by auto
  have "normalizeAttrs attrs' Map.empty (ToLower ''cn'') = Some x"
    by (rule normalizeAttrs_unique [OF inx d' uq])
  then show n: "normalizeAttrs attrs' Map.empty ''cn'' = Some x" by (simp add: l)
  show "MatchFilter (Filter FilterEqual ''cn'' val [] [] [] []) attrs' \<longleftrightarrow> EqualFold x val"
    by (simp add: MatchFilter_def n)
qed

definition exampleUser :: User where
  "exampleUser = \<lparr>CN = ''uid-17'', Attrs = [(''mail'', ''j@x.com''), (''cn'', ''John'')]\<rparr>"

definition plainUser :: User where
  "plainUser = \<lparr>CN = ''uid-18'', Attrs = [(''mail'', ''k@x.com'')]\<rparr>"

theorem userAttrs_declared_cn_overrides_witness:
  "distinct (map fst (Attrs exampleUser)) \<and> (''cn'', ''John'') \<in> set (Attrs exampleUser)
   \<and> map_of (userAttrs exampleUser) ''cn'' = Some ''John''
   \<and> normalizeAttrs (rev (userAttrs exampleUser)) Map.empty ''cn'' = Some ''John''
   \<and> filterUsers rev [exampleUser] ''(cn=john)'' = [exampleUser]
   \<and> filterUsers rev [exampleUser] ''(cn=uid-17)'' = []
   \<and> distinct (map fst (Attrs plainUser)) \<and> ''cn'' \<notin> fst ` set (Attrs plainUser)
   \<and> map_of (userAttrs plainUser) ''cn'' = Some ''uid-18''
   \<and> normalizeAttrs (rev (userAttrs plainUser)) Map.empty ''cn'' = Some ''uid-18''
   \<and> filterUsers rev [plainUser] ''(cn=UID-18)'' = [plainUser]"
proof -
  have a: "distinct (map fst (Attrs exampleUser))" by code_simp
  have b: "(''cn'', ''John'') \<in> set (Attrs exampleUser)" by code_simp
  have c: "\<forall>(k, w) \<in> set (Attrs exampleUser). ToLower k = ''cn'' \<longrightarrow> k = ''cn''" by code_simp
  have f: "filterUsers rev [exampleUser] ''(cn=john)'' = [exampleUser]" by code_simp
  have g: "filterUsers rev [exampleUser] ''(cn=uid-17)'' = []" by code_simp
  have a': "distinct (map fst (Attrs plainUser))" by code_simp
  have b': "''cn'' \<notin> fst ` set (Attrs plainUser)" by code_simp
  have c': "\<forall>(k, w) \<in> set (Attrs plainUser). ToLower k = ''cn'' \<longrightarrow> k = ''cn''" by code_simp
  have f': "filterUsers rev [plainUser] ''(cn=UID-18)'' = [plainUser]" by code_simp
  note t = userAttrs_declared_cn_overrides [OF a, of "''John''"]
  note t' = userAttrs_declared_cn_overrides [OF a', of "''uid-18''"]
  have m: "map_of (userAttrs exampleUser) ''cn'' = Some ''John''" using t b by blast
  have m': "map_of (userAttrs plainUser) ''cn'' = Some ''uid-18''"
    using t' b' by (simp add: plainUser_def)
  have r: "mset (rev (userAttrs exampleUser)) = mset (userAttrs exampleUser)" by simp
  have r': "mset (rev (userAttrs plainUser)) = mset (userAttrs plainUser)" by simp
  have n: "normalizeAttrs (rev (userAttrs exampleUser)) Map.empty ''cn'' = Some ''John''"
    using t c r m by blast
  have n': "normalizeAttrs (rev (userAttrs plainUser)) Map.empty ''cn'' = Some ''uid-18''"
    using t' c' r' m' by blast
  from a b m n f g a' b' m' n' f' show ?thesis by blast
qed

subsection \<open>Substring filters with both a prefix and a suffix\<close>

lemma ToLower_eq_Nil: "ToLower s = [] \<longleftrightarrow> s = []"
  by (simp add: ToLower_def)

text \<open>
  Claim C3, as the code has it. \<open>matchSubstring\<close> lower-cases the value, \<open>initial\<close> and
  \<open>final\<close>. With a non-empty \<open>initial\<close> and a non-empty \<open>final\<close> it tests the suffix on
  what is left of the lower-cased value once the lower-cased prefix has been removed, and
  the \<open>any\<close> segments on what is left between the two. A value that matches is
  therefore, lower-cased, at least as long as the lower-cased prefix and suffix together:
  the two never overlap.
\<close>

theorem matchSubstring_final_after_initial:
  assumes "initial \<noteq> []" and "final \<noteq> []"
  shows "(matchSubstring val initial any final \<longleftrightarrow>
             HasPrefix (ToLower val) (ToLower initial)
           \<and> HasSuffix (drop (length (ToLower initial)) (ToLower val)) (ToLower final)
           \<and> matchAny (take (length (ToLower val) - length (ToLower initial)
                                - length (ToLower final))
                         (drop (length (ToLower initial)) (ToLower val))) any)
       \<and> (matchSubstring val initial any final \<longrightarrow>
             length (ToLower initial) + length (ToLower final) \<le> length (ToLower val))"
proof -
  have ne: "ToLower initial \<noteq> []" "ToLower final \<noteq> []"
    using assms by (simp_all add: ToLower_eq_Nil)
  show ?thesis
    using ne by (auto simp: matchSubstring_def Let_def HasPrefix_def HasSuffix_def)
qed

theorem matchSubstring_final_after_initial_witness:
  "''John'' \<noteq> [] \<and> ''Doe'' \<noteq> [] \<and> matchSubstring ''JohnMiddleDoe'' ''John'' [''Middle''] ''Doe''
   \<and> length (ToLower ''John'') + length (ToLower ''Doe'') \<le> length (ToLower ''JohnMiddleDoe'')"
proof -
  have m: "matchSubstring ''JohnMiddleDoe'' ''John'' [''Middle''] ''Doe''" by code_simp
  from m matchSubstring_final_after_initial [of "''John''" "''Doe''" "''JohnMiddleDoe''" "[''Middle'']"]
  show ?thesis by simp
qed

text \<open>
  The value \<open>aba\<close> begins with \<open>ab\<close> and ends with \<open>ba\<close>, the two overlapping in
  \<open>b\<close>; the filter \<open>(cn=ab*ba)\<close> does not match it.
\<close>

theorem matchSubstring_overlap_counterexample:
  "ParseFilter ''(cn=ab*ba)'' = Inr (Filter FilterSubstring ''cn'' [] [] ''ab'' [] ''ba'')
   \<and> HasPrefix (ToLower ''aba'') (ToLower ''ab'') \<and> HasSuffix (ToLower ''aba'') (ToLower ''ba'')
   \<and> \<not> MatchFilter (Filter FilterSubstring ''cn'' [] [] ''ab'' [] ''ba'') [(''cn'', ''aba'')]"
  by code_simp

subsection \<open>Wildcard patterns in rule values\<close>

text \<open>
  The wildcard match as section 4.3 of the specification words it: the pattern must
  match the whole string, \<open>*\<close> stands for any run of characters, the empty one
  included, and every other character of the pattern stands for itself.
\<close>

fun wildcard_spec :: "string \<Rightarrow> string \<Rightarrow> bool" where
  "wildcard_spec [] s = (s = [])"
| "wildcard_spec (c # p) s =
     (if c = CHR ''*'' then
        (wildcard_spec p s \<or> (case s of [] \<Rightarrow> False | x # s' \<Rightarrow> wildcard_spec (c # p) s'))
      else (case s of [] \<Rightarrow> False | x # s' \<Rightarrow> x = c \<and> wildcard_spec p s'))"

text \<open>The token that \<open>reLex\<close> reads from what \<open>regexPattern\<close> writes for one character.\<close>

definition reTokOf :: "char \<Rightarrow> reTok" where
  "reTokOf c = (if c = CHR ''*'' then RAnyStar else if c = CHR ''|'' then RAlt else RLit c)"

lemma reTokOf_star: "reTokOf (CHR ''*'') = RAnyStar"
  by (simp add: reTokOf_def)

lemma reTokOf_bar: "reTokOf (CHR ''|'') = RAlt"
  by (simp add: reTokOf_def)

lemma reTokOf_lit: "c \<noteq> CHR ''*'' \<Longrightarrow> c \<noteq> CHR ''|'' \<Longrightarrow> reTokOf c = RLit c"
  by (simp add: reTokOf_def)

lemma reTokOf_not_alt: "CHR ''|'' \<notin> set p \<Longrightarrow> \<forall>t \<in> set (map reTokOf p). t \<noteq> RAlt"
  by (auto simp: reTokOf_def)

lemma regexPattern_acc: "regexPattern acc p = acc @ regexPattern [] p"
proof (induction p arbitrary: acc)
  case Nil
  then show ?case by simp
next
  case (Cons c cs)
  show ?case
    by (subst (1 2) regexPattern.simps) (simp add: Cons.IH [of "_ @ _"] Cons.IH [of "[_]"] Cons.IH [of "[_, _]"] Cons.IH [of "''.*''"])
qed

lemma reLex_regexPattern:
  "reLex (regexPattern [] p @ rest) = map reTokOf p @ reLex rest"
proof (induction p)
  case Nil
  then show ?case by simp
next
  case (Cons c cs)
  have "regexPattern [] (c # cs) = regexPattern [] [c] @ regexPattern [] cs"
    by (simp add: regexPattern_acc [of "[_]"] regexPattern_acc [of "[_, _]"] regexPattern_acc [of "''.*''"])
  moreover have "reLex (regexPattern [] [c] @ tl) = reTokOf c # reLex tl" for tl
    by (simp add: reTokOf_def)
  ultimately show ?case using Cons.IH by simp
qed

lemma reLex_wildcard:
  "reLex (regexPattern ''^'' p @ ''$'') = RBegin # map reTokOf p @ [REnd]"
proof -
  have "regexPattern ''^'' p @ ''$'' = CHR ''^'' # (regexPattern [] p @ ''$'')"
    by (simp add: regexPattern_acc [of "''^''"])
  then show ?thesis by (simp add: reLex_regexPattern)
qed

lemma splitAlt_hd: "splitAlt ts \<noteq> [] \<and> hd (splitAlt ts) = takeWhile (\<lambda>t. t \<noteq> RAlt) ts"
  by (induction ts) (auto split: list.splits)

lemma matchHere_self:
  "CHR ''|'' \<notin> set q \<Longrightarrow> (\<forall>b. matchHere ts b s) \<Longrightarrow> matchHere (map reTokOf q @ ts) b (q @ s)"
proof (induction q arbitrary: b)
  case Nil
  then show ?case by simp
next
  case (Cons c q)
  then have ih: "matchHere (map reTokOf q @ ts) b' (q @ s)" for b' by simp
  show ?case
  proof (cases "c = CHR ''*''")
    case True
    have "matchHere (RAnyStar # map reTokOf q @ ts) False (q @ s)"
      using ih [of False] by (cases "q @ s") auto
    then show ?thesis using True by (simp add: reTokOf_star)
  next
    case False
    with Cons.prems have "reTokOf c = RLit c" by (auto simp: reTokOf_lit)
    then show ?thesis using ih by simp
  qed
qed

lemma wildcardMatch_refl: "wildcardMatch v v"
proof -
  define p where "p = ToLower v"
  define ts where "ts = RBegin # map reTokOf p @ [REnd]"
  have m: "matchHere (takeWhile (\<lambda>t. t \<noteq> RAlt) ts) True p"
  proof (cases "CHR ''|'' \<in> set p")
    case True
    then obtain p1 p2 where sp: "p = p1 @ CHR ''|'' # p2" and n: "CHR ''|'' \<notin> set p1"
      by (meson split_list_first)
    have "takeWhile (\<lambda>t. t \<noteq> RAlt) (map reTokOf p1) = map reTokOf p1"
      using reTokOf_not_alt [OF n] by (simp only: takeWhile_eq_all_conv)
    then have "takeWhile (\<lambda>t. t \<noteq> RAlt) ts = RBegin # map reTokOf p1"
      unfolding ts_def sp by (simp add: takeWhile_tail reTokOf_bar)
    moreover have "matchHere (map reTokOf p1 @ []) True (p1 @ CHR ''|'' # p2)"
      by (rule matchHere_self [OF n]) simp
    ultimately show ?thesis unfolding sp by simp
  next
    case False
    have "\<forall>t \<in> set ts. t \<noteq> RAlt"
      unfolding ts_def using reTokOf_not_alt [OF False] by auto
    then have tw: "takeWhile (\<lambda>t. t \<noteq> RAlt) ts = ts"
      by (simp only: takeWhile_eq_all_conv)
    have "matchHere (map reTokOf p @ [REnd]) True (p @ [])"
      by (rule matchHere_self [OF False]) simp
    then have "matchHere ts True p" unfolding ts_def by simp
    then show ?thesis unfolding tw .
  qed
  have "0 \<in> set [0 ..< length p + 1]" by simp
  with m have "\<exists>i \<in> set [0 ..< length p + 1].
      matchHere (takeWhile (\<lambda>t. t \<noteq> RAlt) ts) (i = 0) (drop i p)"
    by (intro bexI [of _ 0]) simp_all
  moreover have "takeWhile (\<lambda>t. t \<noteq> RAlt) ts \<in> set (splitAlt ts)"
    using splitAlt_hd [of ts] by (metis hd_in_set)
  ultimately have "regexp_MatchString (regexPattern ''^'' p @ ''$'') p"
    unfolding regexp_MatchString_def reLex_wildcard ts_def [symmetric] list_ex_iff by blast
  then show ?thesis by (simp add: wildcardMatch_def p_def)
qed

lemma matchHere_spec:
  "CHR ''|'' \<notin> set p \<Longrightarrow> CHR 0x0A \<notin> set s \<Longrightarrow>
     matchHere (map reTokOf p @ [REnd]) b s = wildcard_spec p s"
proof (induction p s arbitrary: b rule: wildcard_spec.induct)
  case (1 s)
  then show ?case by simp
next
  case (2 c p s)
  show ?case
  proof (cases "c = CHR ''*''")
    case True
    from 2 True have a: "matchHere (map reTokOf p @ [REnd]) b s = wildcard_spec p s" by simp
    show ?thesis
    proof (cases s)
      case Nil
      then show ?thesis using a True by (simp add: reTokOf_star)
    next
      case (Cons x s')
      with 2 True have "matchHere (map reTokOf (c # p) @ [REnd]) False s' = wildcard_spec (c # p) s'"
        by simp
      then show ?thesis using a True Cons "2.prems" by (auto simp add: reTokOf_star)
    qed
  next
    case False
    with "2.prems" have t: "reTokOf c = RLit c" by (auto simp: reTokOf_lit)
    show ?thesis
    proof (cases s)
      case Nil
      then show ?thesis using False t by simp
    next
      case (Cons x s')
      with 2 False have "matchHere (map reTokOf p @ [REnd]) False s' = wildcard_spec p s'"
        by simp
      then show ?thesis using False t Cons by auto
    qed
  qed
qed

lemma lower_char_eq_iff:
  assumes "of_char d < (65::nat) \<or> (122::nat) < of_char d"
  shows "lower_char c = d \<longleftrightarrow> c = d"
proof (cases "CHR ''A'' \<le> c \<and> c \<le> CHR ''Z''")
  case True
  then have b: "(65::nat) \<le> of_char c" "of_char c \<le> (90::nat)"
    by (simp_all add: less_eq_char_def)
  then have "of_char (lower_char c) = (of_char c + 32 :: nat)"
    using True by (simp add: lower_char_def)
  with b assms have "lower_char c \<noteq> d" "c \<noteq> d" by auto
  then show ?thesis by simp
next
  case False
  then have "lower_char c = c" unfolding lower_char_def by (rule if_not_P)
  then show ?thesis by simp
qed

lemma lower_char_eq_iff':
  assumes "of_char d < (65::nat) \<or> (122::nat) < of_char d"
  shows "d = lower_char c \<longleftrightarrow> d = c"
proof -
  have "d = lower_char c \<longleftrightarrow> lower_char c = d" by (rule eq_commute)
  also have "\<dots> \<longleftrightarrow> c = d" by (rule lower_char_eq_iff [OF assms])
  also have "\<dots> \<longleftrightarrow> d = c" by (rule eq_commute)
  finally show ?thesis .
qed

lemma ToLower_bar: "CHR ''|'' \<in> set (ToLower s) \<longleftrightarrow> CHR ''|'' \<in> set s"
proof -
  have "(CHR ''|'' = lower_char c) = (CHR ''|'' = c)" for c
    by (rule lower_char_eq_iff') simp
  then show ?thesis by (induction s) (simp_all add: ToLower_def)
qed

lemma ToLower_newline: "CHR 0x0A \<in> set (ToLower s) \<longleftrightarrow> CHR 0x0A \<in> set s"
proof -
  have "(CHR 0x0A = lower_char c) = (CHR 0x0A = c)" for c
    by (rule lower_char_eq_iff') simp
  then show ?thesis by (induction s) (simp_all add: ToLower_def)
qed

lemma splitAlt_single: "\<forall>t \<in> set ts. t \<noteq> RAlt \<Longrightarrow> splitAlt ts = [ts]"
  by (induction ts) auto

lemma wildcardMatch_spec:
  assumes "CHR ''|'' \<notin> set pattern" and "CHR 0x0A \<notin> set str"
  shows "wildcardMatch pattern str = wildcard_spec (ToLower pattern) (ToLower str)"
proof -
  define p where "p = ToLower pattern"
  define s where "s = ToLower str"
  have np: "CHR ''|'' \<notin> set p" and ns: "CHR 0x0A \<notin> set s"
    using assms by (simp_all add: p_def s_def ToLower_bar ToLower_newline)
  have "\<forall>t \<in> set (RBegin # map reTokOf p @ [REnd]). t \<noteq> RAlt"
    using reTokOf_not_alt [OF np] by auto
  then have sp: "splitAlt (RBegin # map reTokOf p @ [REnd]) = [RBegin # map reTokOf p @ [REnd]]"
    by (rule splitAlt_single)
  have "regexp_MatchString (regexPattern ''^'' p @ ''$'') s
      = (\<exists>i \<in> set [0 ..< length s + 1]. i = 0 \<and> matchHere (map reTokOf p @ [REnd]) (i = 0) (drop i s))"
    unfolding regexp_MatchString_def reLex_wildcard sp list_ex_iff by simp
  also have "\<dots> = matchHere (map reTokOf p @ [REnd]) True s" by auto
  also have "\<dots> = wildcard_spec p s" by (rule matchHere_spec [OF np ns])
  finally show ?thesis by (simp add: wildcardMatch_def p_def s_def)
qed


text \<open>
  So \<open>wildcardMatch\<close> is the specified match on lower-cased strings as long as the
  pattern has no \<open>|\<close> and the string has no line feed. Claim C4 fails outside:
  \<open>regexPattern\<close> escapes twelve characters and \<open>|\<close> is not among them, so the
  library reads it as alternation. The rule \<open>(cn~=a|b*)\<close> matches the request
  \<open>(cn~=axyz)\<close>, whose value does not begin with \<open>a|b\<close>.
\<close>

theorem wildcardMatch_bar_is_alternation:
  "matchRuleFilter ''(cn~=a|b*)'' ''(cn~=axyz)''
   \<and> wildcardMatch ''a|b*'' ''axyz''
   \<and> \<not> wildcard_spec (ToLower ''a|b*'') (ToLower ''axyz'')"
  by code_simp

text \<open>The run that \<open>*\<close> stands for cannot hold a line feed either.\<close>

lemma wildcardMatch_star_stops_at_newline:
  "\<not> wildcardMatch ''a*'' [CHR ''a'', CHR 0x0A, CHR ''b'']
   \<and> wildcard_spec (ToLower ''a*'') (ToLower [CHR ''a'', CHR 0x0A, CHR ''b''])"
  by code_simp

subsection \<open>Reflexivity of the structural comparison\<close>

lemma EqualFold_refl: "EqualFold s s"
  by (simp add: EqualFold_def)

lemma allEqualFold_refl: "allEqualFold xs xs"
  by (induction xs) (auto simp: EqualFold_refl)

lemma filtersMatch_refl: "filtersMatch f f"
proof (induction f)
  case (Filter t a v cs i an fin)
  have ao: "list_all (\<lambda>rc. list_ex (\<lambda>qc. filtersMatch rc qc) cs) cs"
    using Filter by (auto simp: list_all_iff list_ex_iff)
  have nt: "(case cs of [] \<Rightarrow> length cs = length cs
             | rc # _ \<Rightarrow> (case cs of [] \<Rightarrow> length cs = length cs | qc # _ \<Rightarrow> filtersMatch rc qc))"
    using Filter by (cases cs) auto
  show ?case
    using ao nt by (simp add: EqualFold_refl allEqualFold_refl wildcardMatch_refl)
qed

text \<open>
  Claim C5. Every filter tree that \<open>ParseFilter\<close> returns matches itself under
  \<open>filtersMatch\<close>; this covers leaves whose value holds a \<open>*\<close> (compared through
  \<open>wildcardMatch\<close>) and Substring, Not, And and Or nodes.
\<close>

theorem filtersMatch_reflexive:
  "ParseFilter text = Inr f \<Longrightarrow> filtersMatch f f"
  by (rule filtersMatch_refl)

definition exampleTree :: Filter where
  "exampleTree = Filter FilterAnd [] []
     [Filter FilterApprox ''cn'' ''a*|B'' [] [] [] [],
      Filter FilterNot [] [] [Filter FilterSubstring ''mail'' [] [] [] [''x''] []] [] [] [],
      Filter FilterOr [] []
        [Filter FilterGreaterOrEqual ''uid'' ''1'' [] [] [] [],
         Filter FilterPresent ''sn'' [] [] [] [] []] [] [] []] [] [] []"

theorem filtersMatch_reflexive_witness:
  "ParseFilter ''(&(cn~=a*|B)(!(mail=*x*))(|(uid>=1)(sn=*)))'' = Inr exampleTree
   \<and> filtersMatch exampleTree exampleTree"
proof -
  have p: "ParseFilter ''(&(cn~=a*|B)(!(mail=*x*))(|(uid>=1)(sn=*)))'' = Inr exampleTree"
    by code_simp
  from p filtersMatch_reflexive [OF p] show ?thesis by (simp del: filtersMatch.simps)
qed

subsection \<open>Building the rule set and dispatching\<close>

definition rules13 :: "Rule list" where
  "rules13 =
     [exampleRule ''r01'' ''(cn=test)'' 0, exampleRule ''r02'' ''(cn=test)'' 0,
      exampleRule ''r03'' ''(cn=test)'' 0, exampleRule ''r04'' ''(cn=test)'' 0,
      exampleRule ''r05'' ''(cn=test)'' 0, exampleRule ''r06'' ''(cn=test)'' 0,
      exampleRule ''r07'' ''(cn=test)'' 0, exampleRule ''r08'' ''(cn=test)'' 0,
      exampleRule ''r09'' ''(cn=test)'' 0, exampleRule ''r10'' ''(cn=test)'' 0,
      exampleRule ''r11'' ''(cn=test)'' 0, exampleRule ''r12'' ''(cn=test)'' 0,
      exampleRule ''r13'' ''(cn=admin)'' 1]"

definition testRequest :: SearchRequest where
  "testRequest = \<lparr>reqBaseDN = ''dc=example,dc=com'', reqScope = ScopeSub, reqFilter = ''(cn=test)''\<rparr>"

text \<open>
  Claim C2 asks that rules of equal priority stay in the order of their declaration,
  so that the first declared of them is the one \<open>FindMatchingRule\<close> returns. The code
  sorts with \<^verbatim>\<open>sort.Slice\<close>, which is not stable. Of the thirteen rules \<open>rules13\<close> the
  first twelve have priority 0 and the filter \<open>(cn=test)\<close>, the last has priority 1 and
  another filter. The sort moves \<open>r07\<close> in front of the other rules of priority 0, and
  the request \<open>(cn=test)\<close> gets \<open>r07\<close> where the first declared matching rule is \<open>r01\<close>.
\<close>

theorem NewRuleEngine_reorders_equal_priorities:
  "map Name (rules (NewRuleEngine rules13))
     = [''r13'', ''r07'', ''r03'', ''r04'', ''r05'', ''r06'', ''r01'', ''r08'', ''r09'', ''r10'',
        ''r11'', ''r12'', ''r02'']
   \<and> FindMatchingRule (NewRuleEngine rules13) testRequest
       = Some (exampleRule ''r07'' ''(cn=test)'' 0)
   \<and> findRule rules13 testRequest = Some (exampleRule ''r01'' ''(cn=test)'' 0)"
  by code_simp

subsection \<open>Which texts the parser rejects\<close>

text \<open>
  The texts that parse, as a grammar. The depth of a text is the number of its opening
  minus the number of its closing parentheses; a balanced span is a text that begins
  with \<open>(\<close> and whose depth comes back to zero at its last character and not before.
\<close>

definition parenStep :: "char \<Rightarrow> int" where
  "parenStep c = (if c = CHR ''('' then 1 else if c = CHR '')'' then - 1 else 0)"

definition depthOf :: "string \<Rightarrow> int" where
  "depthOf s = sum_list (map parenStep s)"

definition closesAt :: "string \<Rightarrow> nat \<Rightarrow> bool" where
  "closesAt s n \<longleftrightarrow>
     n < length s \<and> depthOf (take (Suc n) s) = 0 \<and> (\<forall>m. 0 < m \<and> m \<le> n \<longrightarrow> depthOf (take m s) > 0)"

definition balancedSpan :: "string \<Rightarrow> bool" where
  "balancedSpan c \<longleftrightarrow> c \<noteq> [] \<and> hd c = CHR ''('' \<and> closesAt c (length c - 1)"

text \<open>
  \<open>wfFilter\<close> is a whole filter text, \<open>wfComp\<close> what stands between its first and its
  last character, and \<open>wfList\<close> the list of children of \<open>&\<close> or \<open>|\<close>.
\<close>

inductive wfFilter :: "string \<Rightarrow> bool"
  and wfComp :: "string \<Rightarrow> bool"
  and wfList :: "string \<Rightarrow> bool"
where
  enclosed: "TrimSpace t = CHR ''('' # s @ [CHR '')''] \<Longrightarrow> wfComp s \<Longrightarrow> wfFilter t"
| item: "s \<noteq> [] \<Longrightarrow> hd s \<noteq> CHR ''&'' \<Longrightarrow> hd s \<noteq> CHR ''|'' \<Longrightarrow> hd s \<noteq> CHR ''!'' \<Longrightarrow>
         CHR ''='' \<in> set s \<Longrightarrow> wfComp s"
| conj: "l \<noteq> [] \<Longrightarrow> wfList l \<Longrightarrow> wfComp (CHR ''&'' # l)"
| disj: "l \<noteq> [] \<Longrightarrow> wfList l \<Longrightarrow> wfComp (CHR ''|'' # l)"
| neg: "wfFilter t \<Longrightarrow> wfComp (CHR ''!'' # t)"
| none: "wfList []"
| more: "balancedSpan c \<Longrightarrow> wfFilter c \<Longrightarrow> wfList l \<Longrightarrow> wfList (c @ l)"

lemma Split_nonempty: "Split s sep \<noteq> []"
  by (induction s) (auto split: list.splits)

lemma parseItemAt_ok: "\<exists>f. parseItemAt s i = Inr f"
  by (simp add: parseItemAt_def parseSubstringFilter_def Let_def Split_nonempty)

lemma parseItemFrom_ok_iff:
  "(\<exists>f. parseItemFrom s i = Inr f) \<longleftrightarrow> (\<exists>j. i \<le> j \<and> j < length s \<and> s ! j = CHR ''='')"
proof (induction s i rule: parseItemFrom.induct)
  case (1 s i)
  show ?case
  proof (cases "i < length s")
    case False
    then show ?thesis by (subst parseItemFrom.simps) auto
  next
    case True
    show ?thesis
    proof (cases "s ! i = CHR ''=''")
      case e: True
      have "\<exists>f. parseItemFrom s i = Inr f"
        using True e parseItemAt_ok [of s i] by (subst parseItemFrom.simps) simp
      moreover have "\<exists>j. i \<le> j \<and> j < length s \<and> s ! j = CHR ''=''"
        using True e by blast
      ultimately show ?thesis by blast
    next
      case ne: False
      have "parseItemFrom s i = parseItemFrom s (i + 1)"
        using True ne by (subst parseItemFrom.simps) simp
      moreover have "(\<exists>j. i \<le> j \<and> j < length s \<and> s ! j = CHR ''='')
                 \<longleftrightarrow> (\<exists>j. i + 1 \<le> j \<and> j < length s \<and> s ! j = CHR ''='')"
      proof
        assume "\<exists>j. i \<le> j \<and> j < length s \<and> s ! j = CHR ''=''"
        then obtain j where j: "i \<le> j" "j < length s" "s ! j = CHR ''=''" by blast
        with ne have "j \<noteq> i" by auto
        with j(1) have "i + 1 \<le> j" by simp
        with j show "\<exists>j. i + 1 \<le> j \<and> j < length s \<and> s ! j = CHR ''=''" by blast
      next
        assume "\<exists>j. i + 1 \<le> j \<and> j < length s \<and> s ! j = CHR ''=''"
        then obtain j where j: "i + 1 \<le> j" "j < length s" "s ! j = CHR ''=''" by blast
        then have "i \<le> j" by simp
        with j show "\<exists>j. i \<le> j \<and> j < length s \<and> s ! j = CHR ''=''" by blast
      qed
      ultimately show ?thesis using "1.IH" [OF True ne] by simp
    qed
  qed
qed

lemma parseItem_ok_iff: "(\<exists>f. parseItem s = Inr f) \<longleftrightarrow> CHR ''='' \<in> set s"
  unfolding parseItem_def parseItemFrom_ok_iff by (auto simp: in_set_conv_nth)

lemma depthOf_Nil: "depthOf [] = 0"
  by (simp add: depthOf_def)

lemma depthOf_Cons: "depthOf (c # s) = parenStep c + depthOf s"
  by (simp add: depthOf_def)

lemma scanSpan_found:
  "d \<ge> 1 \<Longrightarrow> fst (scanSpan cs i d) = 0 \<Longrightarrow>
     \<exists>n. scanSpan cs i d = (0, i + n) \<and> n < length cs \<and> d + depthOf (take (Suc n) cs) = 0
        \<and> (\<forall>m \<le> n. d + depthOf (take m cs) > 0)"
proof (induction cs arbitrary: i d)
  case Nil
  then show ?case by simp
next
  case (Cons c cs)
  show ?case
  proof (cases "c = CHR '')'' \<and> d - 1 = 0")
    case True
    then show ?thesis using Cons.prems
      by (intro exI [of _ 0]) (simp add: depthOf_Cons depthOf_Nil parenStep_def)
  next
    case False
    define d' where "d' = d + parenStep c"
    from False Cons.prems have d': "d' \<ge> 1" by (auto simp: d'_def parenStep_def)
    from False have sc: "scanSpan (c # cs) i d = scanSpan cs (i + 1) d'"
      by (auto simp: d'_def parenStep_def)
    with Cons.prems have "fst (scanSpan cs (i + 1) d') = 0" by simp
    from Cons.IH [OF d' this] obtain n where
      n: "scanSpan cs (i + 1) d' = (0, i + 1 + n)" "n < length cs"
         "d' + depthOf (take (Suc n) cs) = 0" "\<forall>m \<le> n. d' + depthOf (take m cs) > 0" by blast
    have "\<forall>m \<le> Suc n. d + depthOf (take m (c # cs)) > 0"
    proof (intro allI impI)
      fix m assume "m \<le> Suc n"
      then show "d + depthOf (take m (c # cs)) > 0"
        using n(4) Cons.prems(1) by (cases m) (auto simp: depthOf_Cons depthOf_Nil d'_def)
    qed
    then show ?thesis using n sc
      by (intro exI [of _ "Suc n"]) (simp add: depthOf_Cons d'_def)
  qed
qed

lemma scanSpan_closes:
  "d \<ge> 1 \<Longrightarrow> n < length cs \<Longrightarrow> d + depthOf (take (Suc n) cs) = 0 \<Longrightarrow>
     (\<forall>m \<le> n. d + depthOf (take m cs) > 0) \<Longrightarrow> scanSpan cs i d = (0, i + n)"
proof (induction cs arbitrary: i d n)
  case Nil
  then show ?case by simp
next
  case (Cons c cs)
  show ?case
  proof (cases n)
    case 0
    with Cons.prems have "d + parenStep c = 0" by (simp add: depthOf_Cons depthOf_Nil)
    with Cons.prems(1) have "c = CHR '')'' \<and> d - 1 = 0"
      by (auto simp: parenStep_def split: if_splits)
    then show ?thesis using 0 by simp
  next
    case (Suc n')
    define d' where "d' = d + parenStep c"
    have "d + depthOf (take (Suc 0) (c # cs)) > 0"
      using Cons.prems(4) [rule_format, of "Suc 0"] Suc by simp
    then have d': "d' \<ge> 1" by (simp add: d'_def depthOf_Cons depthOf_Nil)
    then have nz: "\<not> (c = CHR '')'' \<and> d - 1 = 0)" by (auto simp: d'_def parenStep_def)
    then have sc: "scanSpan (c # cs) i d = scanSpan cs (i + 1) d'"
      by (auto simp: d'_def parenStep_def)
    have a: "n' < length cs" using Cons.prems(2) Suc by simp
    have b: "d' + depthOf (take (Suc n') cs) = 0"
      using Cons.prems(3) Suc by (simp add: depthOf_Cons d'_def)
    have c: "\<forall>m \<le> n'. d' + depthOf (take m cs) > 0"
    proof (intro allI impI)
      fix m assume "m \<le> n'"
      then have "Suc m \<le> n" using Suc by simp
      with Cons.prems(4) have "d + depthOf (take (Suc m) (c # cs)) > 0" by blast
      then show "d' + depthOf (take m cs) > 0" by (simp add: depthOf_Cons d'_def)
    qed
    from Cons.IH [OF d' a b c, of "i + 1"] sc Suc show ?thesis by simp
  qed
qed


lemma closesAt_scanSpan:
  assumes "s \<noteq> []" and "hd s = CHR ''(''" and "closesAt s e"
  shows "scanSpan s 0 0 = (0, e)"
proof -
  from assms obtain cs where s: "s = CHR ''('' # cs" by (cases s) auto
  from assms(3) have e: "e < length s" "depthOf (take (Suc e) s) = 0"
    and pos: "\<forall>m. 0 < m \<and> m \<le> e \<longrightarrow> depthOf (take m s) > 0"
    by (simp_all add: closesAt_def)
  have "e \<noteq> 0"
  proof
    assume "e = 0"
    with e(2) s show False by (simp add: depthOf_Cons depthOf_Nil parenStep_def)
  qed
  then obtain n where n: "e = Suc n" by (cases e) auto
  have a: "n < length cs" using e(1) n s by simp
  have b: "1 + depthOf (take (Suc n) cs) = 0"
    using e(2) n s by (simp add: depthOf_Cons parenStep_def)
  have c: "\<forall>m \<le> n. 1 + depthOf (take m cs) > 0"
  proof (intro allI impI)
    fix m assume "m \<le> n"
    then have "0 < Suc m \<and> Suc m \<le> e" using n by simp
    with pos have "depthOf (take (Suc m) s) > 0" by blast
    then show "1 + depthOf (take m cs) > 0" using s by (simp add: depthOf_Cons parenStep_def)
  qed
  have "scanSpan cs 1 1 = (0, 1 + n)"
    by (rule scanSpan_closes [OF _ a b c]) simp
  then show ?thesis using s n by simp
qed

lemma scanSpan_closesAt:
  assumes "s \<noteq> []" and "hd s = CHR ''(''" and "fst (scanSpan s 0 0) = 0"
  shows "closesAt s (snd (scanSpan s 0 0))"
proof -
  from assms obtain cs where s: "s = CHR ''('' # cs" by (cases s) auto
  have sc: "scanSpan s 0 0 = scanSpan cs 1 1" using s by simp
  with assms(3) have "fst (scanSpan cs 1 1) = 0" by simp
  from scanSpan_found [OF _ this] obtain n where
    n: "scanSpan cs 1 1 = (0, 1 + n)" "n < length cs" "1 + depthOf (take (Suc n) cs) = 0"
       "\<forall>m \<le> n. 1 + depthOf (take m cs) > 0" by auto
  have "closesAt s (Suc n)"
    unfolding closesAt_def
  proof (intro conjI allI impI)
    show "Suc n < length s" using n(2) s by simp
    show "depthOf (take (Suc (Suc n)) s) = 0" using n(3) s by (simp add: depthOf_Cons parenStep_def)
    fix m assume m: "0 < m \<and> m \<le> Suc n"
    then obtain m' where m': "m = Suc m'" by (cases m) auto
    with m n(4) have "1 + depthOf (take m' cs) > 0" by simp
    then show "depthOf (take m s) > 0" using s m' by (simp add: depthOf_Cons parenStep_def)
  qed
  then show ?thesis using sc n(1) by simp
qed

lemma closesAt_append: "closesAt c n \<Longrightarrow> closesAt (c @ l) n"
  by (auto simp: closesAt_def)

lemma closesAt_take: "closesAt s n \<Longrightarrow> closesAt (take (Suc n) s) n"
  by (auto simp: closesAt_def min_def)

lemma balancedSpan_scan:
  assumes "balancedSpan c"
  shows "scanSpan (c @ l) 0 0 = (0, length c - 1)"
  using assms closesAt_scanSpan [of "c @ l" "length c - 1"] closesAt_append [of c "length c - 1" l]
  by (auto simp: balancedSpan_def)

lemma scan_balancedSpan:
  assumes "s \<noteq> []" and "hd s = CHR ''(''" and "fst (scanSpan s 0 0) = 0"
  shows "balancedSpan (take (snd (scanSpan s 0 0) + 1) s)"
proof -
  define e where "e = snd (scanSpan s 0 0)"
  have c: "closesAt s e" unfolding e_def by (rule scanSpan_closesAt [OF assms])
  then have l: "e < length s" by (simp add: closesAt_def)
  then have "length (take (e + 1) s) - 1 = e" by simp
  moreover have "closesAt (take (e + 1) s) e" using closesAt_take [OF c] by simp
  moreover have "take (e + 1) s \<noteq> []" using assms(1) by simp
  moreover have "hd (take (e + 1) s) = CHR ''(''" using assms(1,2) by (cases s) auto
  ultimately show ?thesis unfolding balancedSpan_def e_def [symmetric] by simp
qed

lemma enclosed_decompose:
  assumes "length T \<noteq> 0" and "hd T = CHR ''(''" and "last T = CHR '')''"
  shows "T = CHR ''('' # butlast (tl T) @ [CHR '')'']"
proof -
  from assms obtain cs where T: "T = CHR ''('' # cs" by (cases T) auto
  with assms(3) have "cs \<noteq> []" by (cases cs) auto
  then have "cs = butlast cs @ [last cs]" by simp
  moreover have "last cs = CHR '')''" using assms(3) T \<open>cs \<noteq> []\<close> by simp
  ultimately show ?thesis using T by simp
qed

lemma parseFilterComp_Cons:
  "parseFilterComp (c # l) =
     (if c = CHR ''&'' then parseFilterList l FilterAnd []
      else if c = CHR ''|'' then parseFilterList l FilterOr []
      else if c = CHR ''!'' then
        (case ParseFilter l of
           Inl err \<Rightarrow> Inl (ParseNot err)
         | Inr child \<Rightarrow> Inr (Filter FilterNot [] [] [child] [] [] []))
      else parseItem (c # l))"
  by (subst parseFilterComp.simps) simp

lemma parse_sound:
  "((\<exists>f. ParseFilter t = Inr f) \<longrightarrow> wfFilter t)"
  "((\<exists>f. parseFilterComp s = Inr f) \<longrightarrow> wfComp s)"
  "((\<exists>f. parseFilterList l ty acc = Inr f) \<longrightarrow> wfList l)"
proof (induction t and s and l ty acc rule: ParseFilter_parseFilterComp_parseFilterList.induct)
  case (1 filterStr)
  show ?case
  proof
    assume "\<exists>f. ParseFilter filterStr = Inr f"
    then obtain f where f: "ParseFilter filterStr = Inr f" by blast
    define T where "T = TrimSpace filterStr"
    from f have c: "length T \<noteq> 0" "hd T = CHR ''(''" "last T = CHR '')''"
      and p: "parseFilterComp (butlast (tl T)) = Inr f"
      unfolding T_def by (auto simp: ParseFilter.simps [of filterStr] split: if_splits)
    from 1 c p have "wfComp (butlast (tl T))" unfolding T_def by auto
    moreover have "T = CHR ''('' # butlast (tl T) @ [CHR '')'']"
      by (rule enclosed_decompose [OF c])
    ultimately show "wfFilter filterStr" unfolding T_def by (rule enclosed [rotated])
  qed
next
  case (2 s)
  show ?case
  proof
    assume "\<exists>f. parseFilterComp s = Inr f"
    then obtain f where f: "parseFilterComp s = Inr f" by blast
    then have ne: "s \<noteq> []" by (auto simp: parseFilterComp.simps [of s] split: if_splits)
    then obtain c l where s: "s = c # l" by (cases s) auto
    note f' = f [unfolded s]
    consider (a) "c = CHR ''&''" | (o) "c = CHR ''|''" | (n) "c = CHR ''!''"
      | (i) "c \<noteq> CHR ''&''" "c \<noteq> CHR ''|''" "c \<noteq> CHR ''!''" by blast
    then show "wfComp s"
    proof cases
      case a
      with f' have p: "parseFilterList l FilterAnd [] = Inr f"
        by (simp add: parseFilterComp_Cons)
      then have "l \<noteq> []" by (auto simp: parseFilterList.simps [of l])
      moreover have "wfList l" using 2(1) p a s by auto
      ultimately show ?thesis using a s by (auto intro: conj)
    next
      case o
      with f' have p: "parseFilterList l FilterOr [] = Inr f"
        by (simp add: parseFilterComp_Cons)
      then have "l \<noteq> []" by (auto simp: parseFilterList.simps [of l])
      moreover have "wfList l" using 2(2) p o s by auto
      ultimately show ?thesis using o s by (auto intro: disj)
    next
      case n
      with f' have "\<exists>child. ParseFilter l = Inr child"
        by (auto simp: parseFilterComp_Cons split: sum.splits)
      then have "wfFilter l" using 2(3) n s by auto
      then show ?thesis using n s by (auto intro: neg)
    next
      case i
      with f' have "parseItem (c # l) = Inr f" by (simp add: parseFilterComp_Cons)
      then have "parseItem s = Inr f" by (simp add: s)
      then have "CHR ''='' \<in> set s" using parseItem_ok_iff [of s] by blast
      then show ?thesis using i s by (intro item) auto
    qed
  qed
next
  case (3 s filterType children)
  show ?case
  proof
    assume "\<exists>f. parseFilterList s filterType children = Inr f"
    then obtain f where f: "parseFilterList s filterType children = Inr f" by blast
    show "wfList s"
    proof (cases "s = []")
      case True
      then show ?thesis by (simp add: none)
    next
      case False
      define e where "e = snd (scanSpan s 0 0)"
      from f False have c: "hd s = CHR ''(''" "fst (scanSpan s 0 0) = 0"
        by (auto simp: parseFilterList.simps [of s] split: if_splits)
      from f False c obtain child where
        ch: "ParseFilter (take (e + 1) s) = Inr child"
        and r: "parseFilterList (drop (e + 1) s) filterType (children @ [child]) = Inr f"
        unfolding e_def by (auto simp: parseFilterList.simps [of s] split: sum.splits)
      have "wfFilter (take (e + 1) s)" using 3(1) False c ch unfolding e_def by auto
      moreover have "wfList (drop (e + 1) s)" using 3(2) False c ch r unfolding e_def by auto
      moreover have "balancedSpan (take (e + 1) s)"
        unfolding e_def by (rule scan_balancedSpan [OF False c])
      ultimately have "wfList (take (e + 1) s @ drop (e + 1) s)" by (intro more)
      then show ?thesis by simp
    qed
  qed
qed

lemma parse_complete:
  "wfFilter t \<Longrightarrow> \<exists>f. ParseFilter t = Inr f"
  "wfComp s \<Longrightarrow> \<exists>f. parseFilterComp s = Inr f"
  "wfList l \<Longrightarrow> \<forall>ty acc. acc \<noteq> [] \<or> l \<noteq> [] \<longrightarrow> (\<exists>f. parseFilterList l ty acc = Inr f)"
proof (induction rule: wfFilter_wfComp_wfList.inducts)
  case (enclosed t s)
  then show ?case by (simp add: ParseFilter.simps [of t])
next
  case (item s)
  then show ?case using parseItem_ok_iff [of s] by (simp add: parseFilterComp.simps [of s])
next
  case (conj l)
  then show ?case by (simp add: parseFilterComp_Cons)
next
  case (disj l)
  then show ?case by (simp add: parseFilterComp_Cons)
next
  case (neg t)
  then show ?case by (auto simp: parseFilterComp_Cons)
next
  case none
  then show ?case by (simp add: parseFilterList.simps [of "[]"])
next
  case (more c l)
  show ?case
  proof (intro allI impI)
    fix ty :: FilterType and acc :: "Filter list"
    from more.hyps(1) have ne: "c \<noteq> []" and hd: "hd c = CHR ''(''" by (simp_all add: balancedSpan_def)
    from more.IH(1) obtain child where ch: "ParseFilter c = Inr child" by blast
    have sc: "scanSpan (c @ l) 0 0 = (0, length c - 1)" by (rule balancedSpan_scan [OF more.hyps(1)])
    from more.IH(2) obtain f where f: "parseFilterList l ty (acc @ [child]) = Inr f" by blast
    have "parseFilterList (c @ l) ty acc = parseFilterList l ty (acc @ [child])"
      using ne hd sc ch by (subst parseFilterList.simps) simp
    with f show "\<exists>f. parseFilterList (c @ l) ty acc = Inr f" by simp
  qed
qed

text \<open>
  Claim C6, as the code has it. \<open>ParseFilter\<close> fails exactly on the texts outside the
  grammar: the text without its surrounding white space is empty, or does not begin
  with \<open>(\<close> or does not end with \<open>)\<close>, or what stands between the two is empty, or
  is \<open>&\<close> or \<open>|\<close> followed by an empty list or by something that is not a sequence
  of balanced spans each of which parses, or is \<open>!\<close> followed by a text that does not
  parse, or is a leaf without \<open>=\<close>. The first and the last character are all that is
  asked of the outer parentheses; they need not belong together. White space is what
  \<^verbatim>\<open>strings.TrimSpace\<close> removes, a no-break space (the bytes \<open>C2 A0\<close>) included.
\<close>

theorem ParseFilter_fails_iff: "isl (ParseFilter str) \<longleftrightarrow> \<not> wfFilter str"
proof -
  have "(\<exists>f. ParseFilter str = Inr f) \<longleftrightarrow> wfFilter str"
    using parse_sound(1) [of str] parse_complete(1) [of str] by blast
  then show ?thesis by (cases "ParseFilter str") auto
qed


definition paddedFilter :: string where
  "paddedFilter = [CHR 0xC2, CHR 0xA0] @ ''(cn=a)'' @ [CHR 0xC2, CHR 0xA0]"

theorem ParseFilter_fails_iff_witness:
  "wfFilter ''(&(cn=John)(!(mail=*)))'' \<and> \<not> wfFilter ''(&(a=(b))'' \<and> \<not> wfFilter ''(cn)''
   \<and> \<not> wfFilter ''cn=John'' \<and> \<not> wfFilter ''(&)''
   \<and> wfFilter paddedFilter
   \<and> ParseFilter paddedFilter = Inr (Filter FilterEqual ''cn'' ''a'' [] [] [] [])"
proof -
  have "\<not> isl (ParseFilter ''(&(cn=John)(!(mail=*)))'')" by code_simp
  moreover have "ParseFilter paddedFilter = Inr (Filter FilterEqual ''cn'' ''a'' [] [] [] [])"
    by code_simp
  moreover have "isl (ParseFilter ''(&(a=(b))'')" by code_simp
  moreover have "isl (ParseFilter ''(cn)'')" by code_simp
  moreover have "isl (ParseFilter ''cn=John'')" by code_simp
  moreover have "isl (ParseFilter ''(&)'')" by code_simp
  ultimately show ?thesis
    using ParseFilter_fails_iff [of "''(&(cn=John)(!(mail=*)))''"]
      ParseFilter_fails_iff [of "''(&(a=(b))''"] ParseFilter_fails_iff [of "''(cn)''"]
      ParseFilter_fails_iff [of "''cn=John''"] ParseFilter_fails_iff [of "''(&)''"]
      ParseFilter_fails_iff [of paddedFilter]
    by auto
qed

text \<open>
  The text \<open>(a=1)(b=2)\<close> begins with \<open>(\<close> and ends with \<open>)\<close>, and that is enough: it
  parses, as the leaf with attribute \<open>a\<close> and value \<open>1)(b=2\<close>.
\<close>

theorem ParseFilter_two_groups_counterexample:
  "ParseFilter ''(a=1)(b=2)'' = Inr (Filter FilterEqual ''a'' ''1)(b=2'' [] [] [] [])"
  by code_simp

end
